theory Spec2Isabelle
  imports Complex_Main
begin

section \<open>Numeric values and errors\<close>

text \<open>
  The program computes on NumPy \<^verbatim>\<open>float64\<close> arrays. A value is NaN, an infinity
  (\<open>Inf True\<close> the positive one) or a number; numbers are modelled as reals, so rounding,
  overflow and the sign of zero are not part of the model. Comparisons with NaN are
  false, arithmetic with NaN is NaN, and a division of zero by zero is NaN (the module
  sets \<^verbatim>\<open>np.seterr(divide="ignore", invalid="ignore")\<close>). Genomic positions, cell indices
  and counts are \<^verbatim>\<open>int64\<close> in the program and unbounded integers here.
\<close>

datatype f64 = NaN | Inf bool | Fin real

datatype error = AssertionError | IndexError | KeyError | ValueError | MissingSmoothedTrack

fun fgt :: "f64 \<Rightarrow> f64 \<Rightarrow> bool" where
  "fgt (Fin x) (Fin y) = (y < x)"
| "fgt (Inf s) (Fin y) = s"
| "fgt (Fin x) (Inf t) = (\<not> t)"
| "fgt (Inf s) (Inf t) = (s \<and> \<not> t)"
| "fgt _ _ = False"

section \<open>Peak calling: \<^verbatim>\<open>_find_peaks\<close>\<close>

text \<open>
  The loop state of \<^verbatim>\<open>_find_peaks\<close>: the two result lists, the flag and the loop
  variable \<^verbatim>\<open>pos\<close>, which the code reads once more after the loop.
\<close>

record peak_state =
  peak_starts :: "int list"
  peak_ends :: "int list"
  in_peak :: bool
  pos :: int

definition init_peak_state :: peak_state where
  "init_peak_state = \<lparr>peak_starts = [], peak_ends = [], in_peak = False, pos = 0\<rparr>"

text \<open>\<^verbatim>\<open>max(peak_ends)\<close>, evaluated only when the list is not empty.\<close>

definition list_max :: "int list \<Rightarrow> int" where
  "list_max xs = fold max (tl xs) (hd xs)"

text \<open>One iteration of \<^verbatim>\<open>for var, pos in zip(smoothed_vars, swindow_centers)\<close>.\<close>

definition find_peaks_step :: "f64 \<Rightarrow> int \<Rightarrow> f64 \<times> int \<Rightarrow> peak_state \<Rightarrow> peak_state" where
  "find_peaks_step var_cutoff half_bw vp s0 =
     (let var = fst vp; p = snd vp; s = s0\<lparr>pos := p\<rparr> in
      if fgt var var_cutoff then
        (if \<not> in_peak s then
           (if peak_ends s \<noteq> [] \<and> p - half_bw \<le> list_max (peak_ends s)
            then s\<lparr>in_peak := True, peak_ends := butlast (peak_ends s)\<rparr>
            else s\<lparr>in_peak := True, peak_starts := peak_starts s @ [p - half_bw]\<rparr>)
         else s)
      else
        (if in_peak s then s\<lparr>in_peak := False, peak_ends := peak_ends s @ [p + half_bw]\<rparr>
         else s))"

definition find_peaks_loop :: "f64 list \<Rightarrow> int list \<Rightarrow> f64 \<Rightarrow> int \<Rightarrow> peak_state" where
  "find_peaks_loop smoothed_vars swindow_centers var_cutoff half_bw =
     fold (find_peaks_step var_cutoff half_bw) (zip smoothed_vars swindow_centers)
       init_peak_state"

text \<open>The statements after the loop: the open peak is closed, the assertion is checked.\<close>

definition find_peaks_finish :: "peak_state \<Rightarrow> error + (int list \<times> int list)" where
  "find_peaks_finish s =
     (let ends = (if in_peak s then peak_ends s @ [pos s] else peak_ends s) in
      if length (peak_starts s) = length ends then Inr (peak_starts s, ends)
      else Inl AssertionError)"

definition find_peaks :: "f64 list \<Rightarrow> int list \<Rightarrow> f64 \<Rightarrow> int \<Rightarrow> error + (int list \<times> int list)" where
  "find_peaks smoothed_vars swindow_centers var_cutoff half_bw =
     find_peaks_finish (find_peaks_loop smoothed_vars swindow_centers var_cutoff half_bw)"

section \<open>Ingestion: \<^verbatim>\<open>_line_to_values\<close> and \<^verbatim>\<open>_dump_coo_files\<close>\<close>

text \<open>
  A line of a cell's file after splitting and \<^verbatim>\<open>int(...)\<close>: the chromosome name, the
  position, the methylated count, and the fourth column, which holds the total coverage
  or the unmethylated count.
\<close>

type_synonym cov_line = "string \<times> int \<times> int \<times> int"

definition line_to_values :: "bool \<Rightarrow> cov_line \<Rightarrow> string \<times> int \<times> int \<times> int" where
  "line_to_values coverage line =
     (case line of (chrom, p, n_meth, u) \<Rightarrow>
        (chrom, p, n_meth, if coverage then u - n_meth else u))"

text \<open>
  A line written to a chromosome's \<^verbatim>\<open>.coo\<close> file:
  \<^verbatim>\<open>f"{genomic_pos},{cell_n},{meth_value}\n"\<close>.
\<close>

type_synonym coo_entry = "int \<times> nat \<times> int"

text \<open>
  The two dictionaries of \<^verbatim>\<open>_dump_coo_files\<close>; an open file is the list of the lines
  written to it so far.
\<close>

record dump_state =
  coo_files :: "string \<rightharpoonup> coo_entry list"
  chrom_sizes :: "string \<rightharpoonup> int"

definition init_dump_state :: dump_state where
  "init_dump_state = \<lparr>coo_files = Map.empty, chrom_sizes = Map.empty\<rparr>"

text \<open>
  The body of the inner loop for one record \<^verbatim>\<open>line_vals\<close> of cell \<^verbatim>\<open>cell_n\<close>. A
  dictionary lookup of a missing key is the error \<open>KeyError\<close>.
\<close>

definition dump_record :: "nat \<Rightarrow> string \<times> int \<times> int \<times> int \<Rightarrow> dump_state \<Rightarrow> error + dump_state" where
  "dump_record cell_n line_vals st =
     (case line_vals of (chrom, genomic_pos, n_meth, n_unmeth) \<Rightarrow>
        if n_meth \<noteq> 0 \<and> n_unmeth \<noteq> 0 then Inr st
        else
          let meth_value = (if n_meth > 0 then 1 else - 1);
              st1 = (if coo_files st chrom = None
                     then st\<lparr>coo_files := (coo_files st)(chrom \<mapsto> []),
                             chrom_sizes := (chrom_sizes st)(chrom \<mapsto> 0)\<rparr>
                     else st)
          in case chrom_sizes st1 chrom of
               None \<Rightarrow> Inl KeyError
             | Some cur_size \<Rightarrow>
                 let st2 = (if genomic_pos > cur_size
                            then st1\<lparr>chrom_sizes := (chrom_sizes st1)(chrom \<mapsto> genomic_pos)\<rparr>
                            else st1)
                 in case coo_files st2 chrom of
                      None \<Rightarrow> Inl KeyError
                    | Some written \<Rightarrow>
                        Inr (st2\<lparr>coo_files := (coo_files st2)
                               (chrom \<mapsto> written @ [(genomic_pos, cell_n, meth_value)])\<rparr>))"

text \<open>The inner loop over one cell's records, and the outer loop over the cells.\<close>

fun dump_cell :: "bool \<Rightarrow> nat \<Rightarrow> cov_line list \<Rightarrow> dump_state \<Rightarrow> error + dump_state" where
  "dump_cell coverage cell_n [] st = Inr st"
| "dump_cell coverage cell_n (line # lines) st =
     (case dump_record cell_n (line_to_values coverage line) st of
        Inl e \<Rightarrow> Inl e
      | Inr st' \<Rightarrow> dump_cell coverage cell_n lines st')"

fun dump_cells :: "bool \<Rightarrow> nat \<Rightarrow> cov_line list list \<Rightarrow> dump_state \<Rightarrow> error + dump_state" where
  "dump_cells coverage cell_n [] st = Inr st"
| "dump_cells coverage cell_n (cov_file # fpaths) st =
     (case dump_cell coverage cell_n cov_file st of
        Inl e \<Rightarrow> Inl e
      | Inr st' \<Rightarrow> dump_cells coverage (Suc cell_n) fpaths st')"

definition dump_coo_files :: "bool \<Rightarrow> cov_line list list \<Rightarrow> error + dump_state" where
  "dump_coo_files coverage fpaths = dump_cells coverage 0 fpaths init_dump_state"

section \<open>Sparse chromosome store\<close>

text \<open>
  A \<^verbatim>\<open>scipy.sparse\<close> matrix in compressed sparse row form: the stored values, their
  column indices, the row offsets and the shape. Values are \<^verbatim>\<open>int8\<close>.
\<close>

record csr_matrix =
  data :: "int list"
  indices :: "nat list"
  indptr :: "nat list"
  n_rows :: nat
  n_cols :: nat

text \<open>
  \<^verbatim>\<open>mat.getnnz(axis=1)\<close> and \<^verbatim>\<open>np.ravel(np.sum(mat > 0, axis=1))\<close>: per row, the number
  of stored entries and the number of positive ones.
\<close>

definition row_data :: "csr_matrix \<Rightarrow> nat \<Rightarrow> int list" where
  "row_data mat r = take (indptr mat ! Suc r - indptr mat ! r) (drop (indptr mat ! r) (data mat))"

definition getnnz_rows :: "csr_matrix \<Rightarrow> nat list" where
  "getnnz_rows mat = map (\<lambda>r. indptr mat ! Suc r - indptr mat ! r) [0..<n_rows mat]"

definition sum_positive_rows :: "csr_matrix \<Rightarrow> nat list" where
  "sum_positive_rows mat = map (\<lambda>r. length (filter (\<lambda>v. v > 0) (row_data mat r))) [0..<n_rows mat]"

section \<open>Array operations\<close>

text \<open>
  Arithmetic on \<^verbatim>\<open>float64\<close> values. A zero carries no sign here, so a number divided by
  zero takes the sign of the number.
\<close>

fun fneg :: "f64 \<Rightarrow> f64" where
  "fneg NaN = NaN"
| "fneg (Inf s) = Inf (\<not> s)"
| "fneg (Fin x) = Fin (- x)"

fun fadd :: "f64 \<Rightarrow> f64 \<Rightarrow> f64" where
  "fadd (Fin x) (Fin y) = Fin (x + y)"
| "fadd (Inf s) (Inf t) = (if s = t then Inf s else NaN)"
| "fadd (Inf s) (Fin y) = Inf s"
| "fadd (Fin x) (Inf t) = Inf t"
| "fadd _ _ = NaN"

definition fsub :: "f64 \<Rightarrow> f64 \<Rightarrow> f64" where
  "fsub a b = fadd a (fneg b)"

fun fmul :: "f64 \<Rightarrow> f64 \<Rightarrow> f64" where
  "fmul (Fin x) (Fin y) = Fin (x * y)"
| "fmul (Inf s) (Inf t) = Inf (s = t)"
| "fmul (Inf s) (Fin y) = (if y = 0 then NaN else Inf (s = (0 < y)))"
| "fmul (Fin x) (Inf t) = (if x = 0 then NaN else Inf (t = (0 < x)))"
| "fmul _ _ = NaN"

fun fdiv :: "f64 \<Rightarrow> f64 \<Rightarrow> f64" where
  "fdiv (Fin x) (Fin y) =
     (if y = 0 then (if x = 0 then NaN else Inf (0 < x)) else Fin (x / y))"
| "fdiv (Fin x) (Inf t) = Fin 0"
| "fdiv (Inf s) (Fin y) = Inf (s = (0 \<le> y))"
| "fdiv _ _ = NaN"

fun fabs :: "f64 \<Rightarrow> f64" where
  "fabs NaN = NaN"
| "fabs (Inf s) = Inf True"
| "fabs (Fin x) = Fin \<bar>x\<bar>"

definition fcube :: "f64 \<Rightarrow> f64" where
  "fcube a = fmul a (fmul a a)"

definition fsum :: "f64 list \<Rightarrow> f64" where
  "fsum xs = fold (\<lambda>x acc. fadd acc x) xs (Fin 0)"

definition isnan :: "f64 \<Rightarrow> bool" where
  "isnan a = (a = NaN)"

text \<open>\<^verbatim>\<open>np.log1p\<close> of a count.\<close>

definition flog1p :: "nat \<Rightarrow> f64" where
  "flog1p n = Fin (ln (1 + real n))"

text \<open>
  The slice \<^verbatim>\<open>xs[a:b]\<close>: a negative bound counts from the end, and both bounds are
  clipped to the array.
\<close>

definition slice_bound :: "nat \<Rightarrow> int \<Rightarrow> nat" where
  "slice_bound n a = (if a < 0 then nat (max 0 (a + int n)) else min (nat a) n)"

definition py_slice :: "'a list \<Rightarrow> int \<Rightarrow> int \<Rightarrow> 'a list" where
  "py_slice xs a b =
     (let lo = slice_bound (length xs) a; hi = slice_bound (length xs) b
      in take (hi - lo) (drop lo xs))"

text \<open>
  Indexing with a boolean array, \<^verbatim>\<open>xs[mask]\<close>: NumPy raises \<^verbatim>\<open>IndexError\<close> when the
  mask's length is not the array's.
\<close>

definition bool_index :: "'a list \<Rightarrow> bool list \<Rightarrow> error + 'a list" where
  "bool_index xs bmask =
     (if length bmask \<noteq> length xs then Inl IndexError
      else Inr (map fst (filter snd (zip xs bmask))))"

section \<open>Baseline smoother: \<^verbatim>\<open>Smoother\<close>\<close>

record smoother =
  hbw :: int
  kernel :: "f64 list"
  mfracs :: "f64 list"
  cpg_pos :: "nat list"
  weights :: "f64 list"
  weigh :: bool

text \<open>
  The tricube kernel of \<^verbatim>\<open>__init__\<close>:
  \<^verbatim>\<open>rel_dist = np.abs((np.arange(bandwidth) - self.hbw) / self.hbw)\<close>,
  \<^verbatim>\<open>self.kernel = (1 - (rel_dist ** 3)) ** 3\<close>.
\<close>

definition tricube_kernel :: "int \<Rightarrow> f64 list" where
  "tricube_kernel bandwidth =
     (let h = bandwidth div 2 in
      map (\<lambda>j. let rel_dist = fabs (fdiv (Fin (of_int (int j - h))) (Fin (of_int h)))
                in fcube (fsub (Fin 1) (fcube rel_dist)))
        [0..<nat bandwidth])"

text \<open>
  \<^verbatim>\<open>Smoother.__init__\<close>. The attribute \<^verbatim>\<open>weights\<close> exists only when \<^verbatim>\<open>weigh\<close> is set;
  it is read only then.
\<close>

definition Smoother_init :: "csr_matrix \<Rightarrow> int \<Rightarrow> bool \<Rightarrow> smoother" where
  "Smoother_init sparse_mat bandwidth weigh_flag =
     (let n_obs = getnnz_rows sparse_mat;
          n_meth = sum_positive_rows sparse_mat;
          fracs = map (\<lambda>(m, n). fdiv (Fin (real m)) (Fin (real n))) (zip n_meth n_obs)
      in \<lparr>hbw = bandwidth div 2,
          kernel = tricube_kernel bandwidth,
          mfracs = fracs,
          cpg_pos = filter (\<lambda>i. \<not> isnan (fracs ! i)) [0..<length fracs],
          weights = (if weigh_flag then map flog1p n_obs else []),
          weigh = weigh_flag\<rparr>)"

text \<open>
  The body of the \<^verbatim>\<open>try\<close> block of \<^verbatim>\<open>smooth_whole_chrom\<close> at position \<open>i\<close>, and the
  loop body with its \<^verbatim>\<open>except IndexError\<close>.
\<close>

definition smooth_val :: "smoother \<Rightarrow> nat \<Rightarrow> error + f64" where
  "smooth_val sm i =
     (let window = py_slice (mfracs sm) (int i - hbw sm) (int i + hbw sm);
          nz = map (\<lambda>x. \<not> isnan x) window
      in case bool_index (kernel sm) nz of
           Inl e \<Rightarrow> Inl e
         | Inr k \<Rightarrow>
             (case bool_index window nz of
                Inl e \<Rightarrow> Inl e
              | Inr wnz \<Rightarrow>
                  if weigh sm then
                    (case bool_index (py_slice (weights sm) (int i - hbw sm) (int i + hbw sm)) nz of
                       Inl e \<Rightarrow> Inl e
                     | Inr w \<Rightarrow>
                         Inr (fdiv (fsum (map (\<lambda>(x, kj, wj). fmul (fmul x kj) wj) (zip wnz (zip k w))))
                                   (fsum (map (\<lambda>(kj, wj). fmul kj wj) (zip k w)))))
                  else
                    Inr (fdiv (fsum (map (\<lambda>(x, kj). fmul x kj) (zip wnz k))) (fsum k))))"

definition smooth_at :: "smoother \<Rightarrow> nat \<Rightarrow> error + f64" where
  "smooth_at sm i =
     (case smooth_val sm i of
        Inl IndexError \<Rightarrow> Inr NaN
      | Inl e \<Rightarrow> Inl e
      | Inr v \<Rightarrow> Inr v)"

text \<open>The loop \<^verbatim>\<open>for i in self.cpg_pos\<close>, filling the dictionary \<^verbatim>\<open>smoothed\<close>.\<close>

fun smooth_positions :: "smoother \<Rightarrow> nat list \<Rightarrow> error + (nat \<times> f64) list" where
  "smooth_positions sm [] = Inr []"
| "smooth_positions sm (i # rest) =
     (case smooth_at sm i of
        Inl e \<Rightarrow> Inl e
      | Inr v \<Rightarrow>
          (case smooth_positions sm rest of
             Inl e \<Rightarrow> Inl e
           | Inr smoothed \<Rightarrow> Inr ((i, v) # smoothed)))"

definition smooth_whole_chrom :: "smoother \<Rightarrow> error + (nat \<times> f64) list" where
  "smooth_whole_chrom sm = smooth_positions sm (cpg_pos sm)"

section \<open>Region statistics: \<^verbatim>\<open>_count_n_cpg\<close> and \<^verbatim>\<open>_calc_region_stats\<close>\<close>

text \<open>
  The functions of this and the next section are compiled with Numba's \<^verbatim>\<open>@njit\<close>.
  Reading an array at an integer index counts a negative index from the end; an index
  outside the array, which the compiled code does not check, is the error
  \<open>IndexError\<close> here.
\<close>

definition np_get :: "'a list \<Rightarrow> int \<Rightarrow> error + 'a" where
  "np_get xs i =
     (let n = int (length xs) in
      if 0 \<le> i \<and> i < n then Inr (xs ! nat i)
      else if - n \<le> i \<and> i < 0 then Inr (xs ! nat (i + n))
      else Inl IndexError)"

text \<open>
  A local variable of a compiled function that no executed statement has assigned reads
  as zero: Numba initialises every variable with zero and raises no
  \<^verbatim>\<open>UnboundLocalError\<close>. In \<^verbatim>\<open>_calc_region_stats\<close> this is the case of
  \<^verbatim>\<open>n_obs_cpg\<close> for a region without stored entries, after which the caller \<^verbatim>\<open>matrix\<close>
  goes on to count the region as empty.
\<close>

definition njit_local :: "int option \<Rightarrow> int" where
  "njit_local v = (case v of None \<Rightarrow> 0 | Some x \<Rightarrow> x)"

text \<open>\<^verbatim>\<open>_count_n_cpg\<close>: the loop state is \<^verbatim>\<open>(prev_val, n_cpg)\<close>.\<close>

definition count_n_cpg_step :: "int \<Rightarrow> int \<times> int \<Rightarrow> int \<times> int" where
  "count_n_cpg_step val s =
     (case s of (prev_val, n_cpg) \<Rightarrow>
        if val \<noteq> prev_val then (val, n_cpg + 1) else (prev_val, n_cpg))"

definition count_n_cpg :: "int list \<Rightarrow> int" where
  "count_n_cpg region_indptr = snd (fold count_n_cpg_step region_indptr (0, 0))"

text \<open>
  The entries \<^verbatim>\<open>(indices[i], data[i])\<close> that \<^verbatim>\<open>for i in range(data.shape[0])\<close> reads;
  a read of \<^verbatim>\<open>indices\<close> past its end is the error.
\<close>

definition region_entries :: "nat list \<Rightarrow> int list \<Rightarrow> error + (nat \<times> int) list" where
  "region_entries region_indices region_data =
     (if length region_indices < length region_data then Inl IndexError
      else Inr (zip region_indices region_data))"

text \<open>The body of the loop of \<^verbatim>\<open>_calc_region_stats\<close> on \<^verbatim>\<open>(n_meth, n_total)\<close>.\<close>

fun region_loop :: "(nat \<times> int) list \<Rightarrow> int list \<times> int list \<Rightarrow> error + (int list \<times> int list)" where
  "region_loop [] acc = Inr acc"
| "region_loop ((cell_i, meth_value) # rest) (n_meth, n_total) =
     (if length n_total \<le> cell_i then Inl IndexError
      else
        let n_total' = n_total[cell_i := n_total ! cell_i + 1] in
        if meth_value = - 1 then region_loop rest (n_meth, n_total')
        else region_loop rest (n_meth[cell_i := n_meth ! cell_i + meth_value], n_total'))"

text \<open>\<^verbatim>\<open>np.divide(n_meth, n_total)\<close> of two integer arrays.\<close>

definition divide_counts :: "int list \<Rightarrow> int list \<Rightarrow> f64 list" where
  "divide_counts n_meth n_total =
     map (\<lambda>(m, t). fdiv (Fin (of_int m)) (Fin (of_int t))) (zip n_meth n_total)"

definition calc_region_stats ::
  "int list \<Rightarrow> nat list \<Rightarrow> nat list \<Rightarrow> int \<Rightarrow> int \<Rightarrow> nat \<Rightarrow> int \<Rightarrow>
   error + (int list \<times> int list \<times> f64 list \<times> int)" where
  "calc_region_stats data_chrom indices_chrom indptr_chrom start end n_cells chrom_len =
     (let n_meth = replicate n_cells 0; n_total = replicate n_cells 0 in
      if start > chrom_len then
        Inr (n_meth, n_total, divide_counts n_meth n_total, njit_local (Some 0))
      else
        let end1 = end + 1;
            end2 = (if end1 > chrom_len then chrom_len else end1)
        in case np_get indptr_chrom start of
             Inl e \<Rightarrow> Inl e
           | Inr lo \<Rightarrow>
               (case np_get indptr_chrom end2 of
                  Inl e \<Rightarrow> Inl e
                | Inr hi \<Rightarrow>
                    let region_data = py_slice data_chrom (int lo) (int hi) in
                    if length region_data > 0 then
                      let region_indices = py_slice indices_chrom (int lo) (int hi);
                          region_indptr = map (\<lambda>v. int v - int lo)
                                            (py_slice indptr_chrom start (end2 + 1));
                          n_obs_cpg = count_n_cpg region_indptr
                      in case region_entries region_indices region_data of
                           Inl e \<Rightarrow> Inl e
                         | Inr entries \<Rightarrow>
                             (case region_loop entries (n_meth, n_total) of
                                Inl e \<Rightarrow> Inl e
                              | Inr (n_meth', n_total') \<Rightarrow>
                                  Inr (n_meth', n_total', divide_counts n_meth' n_total',
                                       njit_local (Some n_obs_cpg)))
                    else Inr (n_meth, n_total, divide_counts n_meth n_total, njit_local None)))"

section \<open>Shrunken residuals: \<^verbatim>\<open>_calc_mean_shrunken_residuals\<close>\<close>

text \<open>\<^verbatim>\<open>np.diff\<close> and \<^verbatim>\<open>np.bincount\<close>.\<close>

definition np_diff :: "int list \<Rightarrow> int list" where
  "np_diff xs = map (\<lambda>(a, b). b - a) (zip xs (tl xs))"

definition np_bincount :: "nat list \<Rightarrow> int list" where
  "np_bincount xs =
     (if xs = [] then []
      else map (\<lambda>c. int (length (filter (\<lambda>x. x = c) xs))) [0..<Suc (fold max xs 0)])"

text \<open>
  The inner loop \<^verbatim>\<open>while nobs_cpg == 0: cpg_idx += 1; nobs_cpg = indptr_diff[cpg_idx]\<close>.
\<close>

function skip_empty :: "int list \<Rightarrow> nat \<Rightarrow> int \<Rightarrow> error + (nat \<times> int)" where
  "skip_empty indptr_diff cpg_idx nobs_cpg =
     (if nobs_cpg = 0 then
        (if Suc cpg_idx < length indptr_diff
         then skip_empty indptr_diff (Suc cpg_idx) (indptr_diff ! Suc cpg_idx)
         else Inl IndexError)
      else Inr (cpg_idx, nobs_cpg))"
  by pat_completeness auto
termination
  by (relation "measure (\<lambda>(indptr_diff, cpg_idx, nobs_cpg). length indptr_diff - cpg_idx)") auto

record resid_state =
  cpg_idx :: nat
  nobs_cpg :: int
  smooth_sums :: "f64 list"
  meth_sums :: "int list"

text \<open>
  The body of \<^verbatim>\<open>for i in range(data.shape[0])\<close>. The smoothed track is a dictionary from
  positions to values; a missing position is the error \<open>KeyError\<close>.
\<close>

fun resid_loop ::
  "int list \<Rightarrow> (int \<rightharpoonup> f64) \<Rightarrow> int \<Rightarrow> (nat \<times> int) list \<Rightarrow> resid_state \<Rightarrow> error + resid_state" where
  "resid_loop indptr_diff smoothed_vals start [] s = Inr s"
| "resid_loop indptr_diff smoothed_vals start ((cell_idx, meth_value) # rest) s =
     (case skip_empty indptr_diff (cpg_idx s) (nobs_cpg s) of
        Inl e \<Rightarrow> Inl e
      | Inr (ci, nc) \<Rightarrow>
          if length (smooth_sums s) \<le> cell_idx then Inl IndexError
          else
            (case smoothed_vals (start + int ci) of
               None \<Rightarrow> Inl KeyError
             | Some sv \<Rightarrow>
                 let s1 = s\<lparr>cpg_idx := ci, nobs_cpg := nc - 1,
                             smooth_sums := (smooth_sums s)
                               [cell_idx := fadd (smooth_sums s ! cell_idx) sv]\<rparr>
                 in if meth_value = - 1
                    then resid_loop indptr_diff smoothed_vals start rest s1
                    else resid_loop indptr_diff smoothed_vals start rest
                           (s1\<lparr>meth_sums := (meth_sums s1)
                                  [cell_idx := meth_sums s1 ! cell_idx + meth_value]\<rparr>)))"

text \<open>The final loop over the cells, with \<^verbatim>\<open>shrinkage_factor\<close> at its default 1.\<close>

definition shrink :: "int list \<Rightarrow> int list \<Rightarrow> f64 list \<Rightarrow> nat \<Rightarrow> int \<Rightarrow> f64 list" where
  "shrink n_obs m_sums s_sums n_cells shrinkage_factor =
     map (\<lambda>i. if n_obs ! i > 0
               then fdiv (fsub (Fin (of_int (m_sums ! i))) (s_sums ! i))
                      (Fin (of_int (n_obs ! i + shrinkage_factor)))
               else NaN)
       [0..<n_cells]"

definition calc_mean_shrunken_residuals ::
  "int list \<Rightarrow> nat list \<Rightarrow> nat list \<Rightarrow> int \<Rightarrow> int \<Rightarrow> (int \<rightharpoonup> f64) \<Rightarrow> nat \<Rightarrow> int \<Rightarrow>
   error + f64 list" where
  "calc_mean_shrunken_residuals data_chrom indices_chrom indptr_chrom start end smoothed_vals
       n_cells chrom_len =
     (let shrunken_resid = replicate n_cells NaN in
      if start > chrom_len then Inr shrunken_resid
      else
        let end1 = end + 1;
            end2 = (if end1 > chrom_len then chrom_len else end1)
        in case np_get indptr_chrom start of
             Inl e \<Rightarrow> Inl e
           | Inr lo \<Rightarrow>
               (case np_get indptr_chrom end2 of
                  Inl e \<Rightarrow> Inl e
                | Inr hi \<Rightarrow>
                    let region_data = py_slice data_chrom (int lo) (int hi) in
                    if length region_data = 0 then Inr shrunken_resid
                    else
                      let region_indices = py_slice indices_chrom (int lo) (int hi);
                          region_indptr = map (\<lambda>v. int v - int lo)
                                            (py_slice indptr_chrom start (end2 + 1));
                          indptr_diff = np_diff region_indptr;
                          n_obs_start = np_bincount region_indices
                      in if n_cells < length n_obs_start then Inl ValueError
                         else
                           let n_obs = n_obs_start @ replicate (n_cells - length n_obs_start) 0
                           in case np_get indptr_diff 0 of
                                Inl e \<Rightarrow> Inl e
                              | Inr first_nobs \<Rightarrow>
                                  (case region_entries region_indices region_data of
                                     Inl e \<Rightarrow> Inl e
                                   | Inr entries \<Rightarrow>
                                       (case resid_loop indptr_diff smoothed_vals start entries
                                               \<lparr>cpg_idx = 0, nobs_cpg = first_nobs,
                                                smooth_sums = replicate n_cells (Fin 0),
                                                meth_sums = replicate n_cells 0\<rparr> of
                                          Inl e \<Rightarrow> Inl e
                                        | Inr s \<Rightarrow>
                                            Inr (shrink n_obs (meth_sums s) (smooth_sums s)
                                                   n_cells 1)))))"

section \<open>Assembling the store: \<^verbatim>\<open>prepare\<close>\<close>

text \<open>
  \<^verbatim>\<open>prepare\<close> loads a chromosome's \<^verbatim>\<open>.coo\<close> file with \<^verbatim>\<open>np.loadtxt\<close> and builds
  \<^verbatim>\<open>sp_sparse.coo_matrix((coo[:, 2], (coo[:, 0], coo[:, 1])), shape=(chrom_size + 1,
  n_cells), dtype=np.int8).tocsr()\<close>. These are library calls; what they do is modelled
  after their documentation:
  \<^item> \<^verbatim>\<open>np.loadtxt\<close> returns a one-dimensional array for a file of a single line, on
    which \<^verbatim>\<open>coo[:, 2]\<close> raises \<^verbatim>\<open>IndexError\<close>;
  \<^item> the constructor raises \<^verbatim>\<open>ValueError\<close> for a negative index or one outside the
    shape;
  \<^item> the conversion to compressed sparse row form stores each row's entries in ascending
    column order and sums the values of entries with the same row and column, in
    \<^verbatim>\<open>int8\<close> arithmetic; an entry whose sum is zero stays stored.
\<close>

definition wrap_int8 :: "int \<Rightarrow> int" where
  "wrap_int8 x = (x + 128) mod 256 - 128"

definition coo_row :: "coo_entry list \<Rightarrow> nat \<Rightarrow> (nat \<times> int) list" where
  "coo_row coo r =
     (let here = filter (\<lambda>e. fst e = int r) coo;
          cols = sort (remdups (map (\<lambda>e. fst (snd e)) here))
      in map (\<lambda>c. (c, wrap_int8 (sum_list (map (\<lambda>e. snd (snd e))
                                      (filter (\<lambda>e. fst (snd e) = c) here)))))
           cols)"

definition tocsr :: "coo_entry list \<Rightarrow> nat \<Rightarrow> nat \<Rightarrow> error + csr_matrix" where
  "tocsr coo n_rows_shape n_cols_shape =
     (if \<exists>e \<in> set coo. fst e < 0 \<or> int n_rows_shape \<le> fst e \<or> n_cols_shape \<le> fst (snd e)
      then Inl ValueError
      else
        let rows = map (coo_row coo) [0..<n_rows_shape] in
        Inr \<lparr>data = concat (map (map snd) rows),
             indices = concat (map (map fst) rows),
             indptr = map (\<lambda>r. length (concat (take r rows))) [0..<Suc n_rows_shape],
             n_rows = n_rows_shape,
             n_cols = n_cols_shape\<rparr>)"

text \<open>
  One iteration of \<^verbatim>\<open>for chrom in coo_files.keys()\<close>: the matrix written for the
  chromosome with staged lines \<open>coo\<close> and size \<open>chrom_size\<close>.
\<close>

definition prepare_chrom :: "nat \<Rightarrow> int \<Rightarrow> coo_entry list \<Rightarrow> error + csr_matrix" where
  "prepare_chrom n_cells chrom_size coo =
     (if length coo \<le> 1 then Inl IndexError
      else tocsr coo (nat (chrom_size + 1)) n_cells)"

text \<open>
  \<^verbatim>\<open>prepare\<close> for the input files of the cells, followed up to the matrix of one
  chromosome among the keys of \<^verbatim>\<open>coo_files\<close>; the number of cells is the number of
  input files.
\<close>

definition prepare :: "bool \<Rightarrow> cov_line list list \<Rightarrow> string \<Rightarrow> error + csr_matrix" where
  "prepare coverage input_files chrom =
     (case dump_coo_files coverage input_files of
        Inl e \<Rightarrow> Inl e
      | Inr st \<Rightarrow>
          (case coo_files st chrom of
             None \<Rightarrow> Inl KeyError
           | Some coo \<Rightarrow>
               (case chrom_sizes st chrom of
                  None \<Rightarrow> Inl KeyError
                | Some chrom_size \<Rightarrow> prepare_chrom (length input_files) chrom_size coo)))"

section \<open>Genome scanner: \<^verbatim>\<open>_move_windows\<close> and \<^verbatim>\<open>scan\<close>\<close>

text \<open>
  \<^verbatim>\<open>np.nanvar\<close>: the mean squared deviation from the mean over the values that are not
  NaN; NaN when there is none.
\<close>

definition nanvar :: "f64 list \<Rightarrow> f64" where
  "nanvar xs =
     (let ys = filter (\<lambda>x. \<not> isnan x) xs;
          cnt = Fin (real (length ys));
          avg = fdiv (fsum ys) cnt
      in fdiv (fsum (map (\<lambda>y. let d = fsub y avg in fmul d d) ys)) cnt)"

text \<open>
  \<^verbatim>\<open>np.arange(start, end, stepsize)\<close> on integers; a step of zero is an error.
\<close>

definition np_arange :: "int \<Rightarrow> int \<Rightarrow> int \<Rightarrow> error + int list" where
  "np_arange start stop step =
     (if step = 0 then Inl ValueError
      else Inr (map (\<lambda>i. start + int i * step) [0..<nat (- ((- (stop - start)) div step))]))"

text \<open>The loop of \<^verbatim>\<open>_move_windows\<close> over the window positions.\<close>

fun window_variances ::
  "int \<Rightarrow> int list \<Rightarrow> nat list \<Rightarrow> nat list \<Rightarrow> (int \<rightharpoonup> f64) \<Rightarrow> nat \<Rightarrow> int \<Rightarrow> int list \<Rightarrow>
   error + f64 list" where
  "window_variances half_bw data_chrom indices_chrom indptr_chrom smoothed_vals n_cells chrom_len
       [] = Inr []"
| "window_variances half_bw data_chrom indices_chrom indptr_chrom smoothed_vals n_cells chrom_len
       (p # windows) =
     (case calc_mean_shrunken_residuals data_chrom indices_chrom indptr_chrom
             (p - half_bw) (p + half_bw) smoothed_vals n_cells chrom_len of
        Inl e \<Rightarrow> Inl e
      | Inr mean_shrunk_resid \<Rightarrow>
          (case window_variances half_bw data_chrom indices_chrom indptr_chrom smoothed_vals
                  n_cells chrom_len windows of
             Inl e \<Rightarrow> Inl e
           | Inr smoothed_var \<Rightarrow> Inr (nanvar mean_shrunk_resid # smoothed_var)))"

definition move_windows ::
  "int \<Rightarrow> int \<Rightarrow> int \<Rightarrow> int \<Rightarrow> int list \<Rightarrow> nat list \<Rightarrow> nat list \<Rightarrow> (int \<rightharpoonup> f64) \<Rightarrow> nat \<Rightarrow> int \<Rightarrow>
   error + (int list \<times> f64 list)" where
  "move_windows start end stepsize half_bw data_chrom indices_chrom indptr_chrom smoothed_vals
       n_cells chrom_len =
     (case np_arange start end stepsize of
        Inl e \<Rightarrow> Inl e
      | Inr windows \<Rightarrow>
          (case window_variances half_bw data_chrom indices_chrom indptr_chrom smoothed_vals
                  n_cells chrom_len windows of
             Inl e \<Rightarrow> Inl e
           | Inr smoothed_var \<Rightarrow> Inr (windows, smoothed_var)))"

text \<open>
  A file \<^verbatim>\<open>*.npz\<close> of the data directory as \<^verbatim>\<open>scan\<close> sees it: the chromosome name, the
  file size, the matrix it holds, and the chromosome's smoothed track when its file
  exists.
\<close>

record chrom_file =
  chrom_name :: string
  file_size :: nat
  chrom_mat :: csr_matrix
  smoothed_track :: "(int \<rightharpoonup> f64) option"

text \<open>
  \<^verbatim>\<open>sorted(glob.glob(...), key=lambda x: os.path.getsize(x), reverse=True)\<close>: a stable
  sort by descending size.
\<close>

definition chrom_paths :: "chrom_file list \<Rightarrow> chrom_file list" where
  "chrom_paths files = sort_key (\<lambda>f. - int (file_size f)) files"

text \<open>\<^verbatim>\<open>np.nonzero(mat.getnnz(axis=1))[0]\<close>.\<close>

definition cpg_pos_chrom :: "csr_matrix \<Rightarrow> nat list" where
  "cpg_pos_chrom mat = filter (\<lambda>r. getnnz_rows mat ! r \<noteq> 0) [0..<n_rows mat]"

text \<open>
  The first part of the body of the loop of \<^verbatim>\<open>scan\<close>, up to the call of
  \<^verbatim>\<open>_move_windows\<close>: the window positions and variances of a chromosome.
\<close>

definition scan_windows :: "int \<Rightarrow> int \<Rightarrow> chrom_file \<Rightarrow> error + (int list \<times> f64 list)" where
  "scan_windows half_bw stepsize f =
     (let mat = chrom_mat f in
      case smoothed_track f of
        None \<Rightarrow> Inl MissingSmoothedTrack
      | Some smoothed_cpg_vals \<Rightarrow>
          (case cpg_pos_chrom mat of
             [] \<Rightarrow> Inl IndexError
           | first_pos # _ \<Rightarrow>
               let start = int first_pos + half_bw + 1;
                   end = int (last (cpg_pos_chrom mat)) - half_bw - 1
               in move_windows start end stepsize half_bw (data mat) (indices mat) (indptr mat)
                    smoothed_cpg_vals (n_cols mat) (int (n_rows mat))))"

type_synonym bed_entry = "string \<times> int \<times> int \<times> f64"

text \<open>The loop \<^verbatim>\<open>for ps, pe in zip(peak_starts, peak_ends)\<close> that scores and writes the peaks.\<close>

fun write_peaks :: "chrom_file \<Rightarrow> (int \<rightharpoonup> f64) \<Rightarrow> (int \<times> int) list \<Rightarrow> error + bed_entry list" where
  "write_peaks f smoothed_cpg_vals [] = Inr []"
| "write_peaks f smoothed_cpg_vals ((ps, pe) # peaks) =
     (case calc_mean_shrunken_residuals (data (chrom_mat f)) (indices (chrom_mat f))
             (indptr (chrom_mat f)) ps pe smoothed_cpg_vals (n_cols (chrom_mat f))
             (int (n_rows (chrom_mat f))) of
        Inl e \<Rightarrow> Inl e
      | Inr resid \<Rightarrow>
          (case write_peaks f smoothed_cpg_vals peaks of
             Inl e \<Rightarrow> Inl e
           | Inr written_entries \<Rightarrow> Inr ((chrom_name f, ps, pe, nanvar resid) # written_entries)))"

text \<open>
  The second part of the loop body, from the call of \<^verbatim>\<open>_find_peaks\<close> with the threshold
  value on: the lines written for the chromosome.
\<close>

definition scan_peaks :: "int \<Rightarrow> chrom_file \<Rightarrow> f64 \<Rightarrow> int list \<times> f64 list \<Rightarrow> error + bed_entry list" where
  "scan_peaks half_bw f var_threshold_value windows =
     (case windows of (genomic_positions, window_vars) \<Rightarrow>
        (case find_peaks window_vars genomic_positions var_threshold_value half_bw of
           Inl e \<Rightarrow> Inl e
         | Inr (starts, ends) \<Rightarrow>
             (case smoothed_track f of
                None \<Rightarrow> Inl MissingSmoothedTrack
              | Some smoothed_cpg_vals \<Rightarrow> write_peaks f smoothed_cpg_vals (zip starts ends))))"

text \<open>
  The loop \<^verbatim>\<open>for mat_path in chrom_paths\<close> with its state \<^verbatim>\<open>var_threshold_value\<close>
  (\<open>None\<close> for Python's \<^verbatim>\<open>None\<close>) and the lines written so far. \<^verbatim>\<open>np.nanquantile\<close> is
  a library function and a parameter here.
\<close>

fun scan_loop ::
  "(f64 list \<Rightarrow> f64 \<Rightarrow> f64) \<Rightarrow> int \<Rightarrow> int \<Rightarrow> f64 \<Rightarrow> chrom_file list \<Rightarrow> f64 option \<Rightarrow>
   error + bed_entry list" where
  "scan_loop nanquantile half_bw stepsize var_threshold [] var_threshold_value = Inr []"
| "scan_loop nanquantile half_bw stepsize var_threshold (f # paths) var_threshold_value =
     (case scan_windows half_bw stepsize f of
        Inl e \<Rightarrow> Inl e
      | Inr windows \<Rightarrow>
          let threshold = (case var_threshold_value of
                             None \<Rightarrow> nanquantile (snd windows) (fsub (Fin 1) var_threshold)
                           | Some t \<Rightarrow> t)
          in case scan_peaks half_bw f threshold windows of
               Inl e \<Rightarrow> Inl e
             | Inr entries \<Rightarrow>
                 (case scan_loop nanquantile half_bw stepsize var_threshold paths (Some threshold) of
                    Inl e \<Rightarrow> Inl e
                  | Inr later_entries \<Rightarrow> Inr (entries @ later_entries)))"

definition scan ::
  "(f64 list \<Rightarrow> f64 \<Rightarrow> f64) \<Rightarrow> chrom_file list \<Rightarrow> int \<Rightarrow> int \<Rightarrow> f64 \<Rightarrow> error + bed_entry list" where
  "scan nanquantile data_dir bandwidth stepsize var_threshold =
     scan_loop nanquantile (bandwidth div 2) stepsize var_threshold (chrom_paths data_dir) None"

section \<open>Notions and invariants used in the statements and proofs\<close>

text \<open>
  What holds of the loop state of \<^verbatim>\<open>_find_peaks\<close> after the windows \<open>zs\<close>, whatever
  their order: each recorded end is a window position plus the half bandwidth, there is
  one more start than ends exactly while a peak is open, and while a peak is open
  \<^verbatim>\<open>pos\<close> is the last window's position.
\<close>

definition peak_shape :: "int \<Rightarrow> (f64 \<times> int) list \<Rightarrow> peak_state \<Rightarrow> bool" where
  "peak_shape h zs s \<longleftrightarrow>
     (\<forall>e \<in> set (peak_ends s). \<exists>c \<in> set (map snd zs). e = c + h) \<and>
     length (peak_starts s) = length (peak_ends s) + (if in_peak s then 1 else 0) \<and>
     (in_peak s \<longrightarrow> zs \<noteq> [] \<and> pos s = snd (last zs))"

text \<open>
  What the ingestion claims speak of. A record is a clean call when it is not skipped by
  the ambiguity test, and a clean call of cell \<open>cell_n\<close> stands for one entry. The
  entries a list of cells' files stages for a chromosome are the entries of its clean
  calls on that chromosome, cell after cell, the cells numbered from \<open>cell_n\<close>.
\<close>

definition clean_call :: "string \<times> int \<times> int \<times> int \<Rightarrow> bool" where
  "clean_call vals = (case vals of (chrom, p, n_meth, n_unmeth) \<Rightarrow> \<not> (n_meth \<noteq> 0 \<and> n_unmeth \<noteq> 0))"

definition entry_of :: "nat \<Rightarrow> string \<times> int \<times> int \<times> int \<Rightarrow> coo_entry" where
  "entry_of cell_n vals = (case vals of (chrom, p, n_meth, n_unmeth) \<Rightarrow>
     (p, cell_n, if n_meth > 0 then 1 else - 1))"

definition clean_calls :: "bool \<Rightarrow> string \<Rightarrow> cov_line list \<Rightarrow> (string \<times> int \<times> int \<times> int) list" where
  "clean_calls coverage chrom lines =
     filter (\<lambda>vals. clean_call vals \<and> fst vals = chrom) (map (line_to_values coverage) lines)"

fun staged_entries :: "bool \<Rightarrow> string \<Rightarrow> nat \<Rightarrow> cov_line list list \<Rightarrow> coo_entry list" where
  "staged_entries coverage chrom cell_n [] = []"
| "staged_entries coverage chrom cell_n (cov_file # fpaths) =
     map (entry_of cell_n) (clean_calls coverage chrom cov_file) @
     staged_entries coverage chrom (Suc cell_n) fpaths"

text \<open>
  The lines written so far to a chromosome's file (none when it is not open), and what
  holds of the two dictionaries throughout the loops: they have the same keys, an open
  file has at least one line, and a chromosome's size is not negative and bounds the
  positions written to its file.
\<close>

definition written :: "dump_state \<Rightarrow> string \<Rightarrow> coo_entry list" where
  "written st chrom = (case coo_files st chrom of None \<Rightarrow> [] | Some w \<Rightarrow> w)"

definition dump_inv :: "dump_state \<Rightarrow> bool" where
  "dump_inv st \<longleftrightarrow>
     dom (coo_files st) = dom (chrom_sizes st) \<and>
     (\<forall>chrom w. coo_files st chrom = Some w \<longrightarrow> w \<noteq> []) \<and>
     (\<forall>chrom z. chrom_sizes st chrom = Some z \<longrightarrow>
        0 \<le> z \<and> (\<forall>e \<in> set (written st chrom). fst e \<le> z))"

text \<open>
  A chromosome of one cell with a methylated call at position 10 and an unmethylated one
  at position 12, the last row of the matrix.
\<close>

definition two_site_chrom :: csr_matrix where
  "two_site_chrom = \<lparr>data = [1, - 1], indices = [0, 0],
     indptr = [0,0,0,0,0,0,0,0,0,0,0,1,1,2], n_rows = 13, n_cols = 1\<rparr>"

text \<open>
  A well-formed store: one row offset more than rows, offsets in ascending order and
  ending at the number of stored values, one column index per value, every column index
  a cell index.
\<close>

definition valid_csr :: "csr_matrix \<Rightarrow> bool" where
  "valid_csr mat \<longleftrightarrow>
     length (indptr mat) = Suc (n_rows mat) \<and>
     sorted (indptr mat) \<and>
     last (indptr mat) = length (data mat) \<and>
     length (indices mat) = length (data mat) \<and>
     (\<forall>c \<in> set (indices mat). c < n_cols mat)"

text \<open>
  The region of a query \<open>start\<close>, \<open>end\<close>: its rows run from \<open>start\<close> up to but not
  including \<open>region_end\<close>, which is \<open>end + 1\<close> clipped to the number of rows. Its column
  indices and values are the stored entries between the row offsets at \<open>start\<close> and at
  \<open>region_end\<close>, and its covered rows are those with at least one stored entry. Per cell,
  the number of the region's entries, and the sum of those of its values that are
  not -1.
\<close>

definition region_end :: "csr_matrix \<Rightarrow> int \<Rightarrow> nat" where
  "region_end mat end = nat (min (end + 1) (int (n_rows mat)))"

definition region_cols :: "csr_matrix \<Rightarrow> int \<Rightarrow> int \<Rightarrow> nat list" where
  "region_cols mat start end =
     map (\<lambda>k. indices mat ! k) [indptr mat ! nat start ..< indptr mat ! region_end mat end]"

definition region_vals :: "csr_matrix \<Rightarrow> int \<Rightarrow> int \<Rightarrow> int list" where
  "region_vals mat start end =
     map (\<lambda>k. data mat ! k) [indptr mat ! nat start ..< indptr mat ! region_end mat end]"

definition covered_rows :: "csr_matrix \<Rightarrow> int \<Rightarrow> int \<Rightarrow> nat list" where
  "covered_rows mat start end =
     filter (\<lambda>r. indptr mat ! r < indptr mat ! Suc r) [nat start ..< region_end mat end]"

definition region_n_total :: "csr_matrix \<Rightarrow> int \<Rightarrow> int \<Rightarrow> int list" where
  "region_n_total mat start end =
     map (\<lambda>c. int (length (filter (\<lambda>x. x = c) (region_cols mat start end)))) [0..<n_cols mat]"

definition region_n_meth :: "csr_matrix \<Rightarrow> int \<Rightarrow> int \<Rightarrow> int list" where
  "region_n_meth mat start end =
     map (\<lambda>c. sum_list (map snd (filter (\<lambda>e. fst e = c \<and> snd e \<noteq> - 1)
                 (zip (region_cols mat start end) (region_vals mat start end)))))
       [0..<n_cols mat]"

text \<open>
  A chromosome of three cells with calls at position 10 (cell 0 methylated, cell 1
  unmethylated) and at position 20 (cell 0 methylated).
\<close>

definition three_cell_chrom :: csr_matrix where
  "three_cell_chrom = \<lparr>data = [1, - 1, 1], indices = [0, 1, 0],
     indptr = [0,0,0,0,0,0,0,0,0,0,0,2,2,2,2,2,2,2,2,2,2,3], n_rows = 21, n_cols = 3\<rparr>"

text \<open>
  The row offsets that the entries of a region belong to, counted from the region's
  first row, as the loop of \<^verbatim>\<open>_calc_mean_shrunken_residuals\<close> walks them: \<open>n\<close> more
  entries in row \<open>j\<close>, then the entries of the rows after \<open>j\<close>.
\<close>

definition rows_from :: "int list \<Rightarrow> nat \<Rightarrow> int \<Rightarrow> nat list" where
  "rows_from ds j n =
     replicate (nat n) j @ concat (map (\<lambda>i. replicate (nat (ds ! i)) i) [Suc j ..< length ds])"

text \<open>
  What the shrunken-residual claim speaks of: the value of the smoothed track at a
  position, the row of each entry of the region, per cell the sum of the smoothed-track
  values over the entries of that cell in the region (in the order of the entries), and
  the residual of each cell.
\<close>

definition track_value :: "(int \<rightharpoonup> f64) \<Rightarrow> int \<Rightarrow> f64" where
  "track_value smoothed_vals p = (case smoothed_vals p of None \<Rightarrow> NaN | Some x \<Rightarrow> x)"

definition entry_rows :: "csr_matrix \<Rightarrow> int \<Rightarrow> int \<Rightarrow> nat list" where
  "entry_rows mat start end =
     concat (map (\<lambda>r. replicate (indptr mat ! Suc r - indptr mat ! r) r)
               [nat start ..< region_end mat end])"

definition cell_smooth_sum :: "(int \<rightharpoonup> f64) \<Rightarrow> csr_matrix \<Rightarrow> int \<Rightarrow> int \<Rightarrow> nat \<Rightarrow> f64" where
  "cell_smooth_sum smoothed_vals mat start end c =
     fsum (map (\<lambda>p. track_value smoothed_vals (int (fst p)))
             (filter (\<lambda>p. snd p = c)
                (zip (entry_rows mat start end) (region_cols mat start end))))"

definition region_residuals :: "(int \<rightharpoonup> f64) \<Rightarrow> csr_matrix \<Rightarrow> int \<Rightarrow> int \<Rightarrow> f64 list" where
  "region_residuals smoothed_vals mat start end =
     map (\<lambda>c. if region_n_total mat start end ! c > 0
               then fdiv (fsub (Fin (of_int (region_n_meth mat start end ! c)))
                               (cell_smooth_sum smoothed_vals mat start end c))
                         (Fin (of_int (region_n_total mat start end ! c + 1)))
               else NaN)
       [0..<n_cols mat]"

text \<open>A smoothed track with values at positions 10 and 20.\<close>

definition two_site_track :: "int \<rightharpoonup> f64" where
  "two_site_track = [10 \<mapsto> Fin (1 / 2), 20 \<mapsto> Fin 1]"

text \<open>
  The number of clean calls the input files hold for a chromosome, and the condition that
  no two staged entries of a chromosome share position and cell.
\<close>

definition n_clean_calls :: "bool \<Rightarrow> string \<Rightarrow> cov_line list list \<Rightarrow> nat" where
  "n_clean_calls coverage chrom input_files =
     sum_list (map (\<lambda>cov_file. length (clean_calls coverage chrom cov_file)) input_files)"

definition no_repeated_site :: "coo_entry list \<Rightarrow> bool" where
  "no_repeated_site coo = distinct (map (\<lambda>e. (fst e, fst (snd e))) coo)"

text \<open>
  Input files of two cells (the first with an ambiguous record at position 4), and an
  input file that reports position 5 of a chromosome twice.
\<close>

definition two_cell_input :: "cov_line list list" where
  "two_cell_input =
     [[(''chr1'', 5, 1, 0), (''chr1'', 3, 0, 1), (''chr1'', 4, 2, 3)],
      [(''chr1'', 3, 0, 0), (''chr2'', 3, 0, 0)]]"

definition repeated_site_input :: "cov_line list list" where
  "repeated_site_input = [[(''chr1'', 5, 1, 0), (''chr1'', 5, 1, 0)]]"

text \<open>
  An input file that reports position 5 twice as unmethylated, and one that reports it
  once with both counts zero and once as methylated.
\<close>

definition twice_unmethylated_input :: "cov_line list list" where
  "twice_unmethylated_input = [[(''chr1'', 5, 0, 1), (''chr1'', 5, 0, 1)]]"

definition zero_beside_methylated_input :: "cov_line list list" where
  "zero_beside_methylated_input = [[(''chr1'', 5, 0, 0), (''chr1'', 5, 1, 0)]]"

text \<open>
  The entries of row \<open>r\<close> of a store, as pairs of column index and value: the slices
  \<^verbatim>\<open>indices[indptr[r]:indptr[r+1]]\<close> and \<^verbatim>\<open>data[indptr[r]:indptr[r+1]]\<close> side by side.
\<close>

definition csr_row :: "csr_matrix \<Rightarrow> nat \<Rightarrow> (nat \<times> int) list" where
  "csr_row mat r =
     zip (take (indptr mat ! Suc r - indptr mat ! r) (drop (indptr mat ! r) (indices mat)))
         (row_data mat r)"

text \<open>
  Peak calling for a list of chromosomes with one given threshold value: the loop body
  of \<^verbatim>\<open>scan\<close> without the computation of the threshold.
\<close>

fun scan_fixed :: "int \<Rightarrow> int \<Rightarrow> f64 \<Rightarrow> chrom_file list \<Rightarrow> error + bed_entry list" where
  "scan_fixed half_bw stepsize threshold [] = Inr []"
| "scan_fixed half_bw stepsize threshold (f # paths) =
     (case scan_windows half_bw stepsize f of
        Inl e \<Rightarrow> Inl e
      | Inr windows \<Rightarrow>
          (case scan_peaks half_bw f threshold windows of
             Inl e \<Rightarrow> Inl e
           | Inr entries \<Rightarrow>
               (case scan_fixed half_bw stepsize threshold paths of
                  Inl e \<Rightarrow> Inl e
                | Inr later_entries \<Rightarrow> Inr (entries @ later_entries))))"

text \<open>
  For an example run: the largest of the values that are not NaN, which is their
  quantile at 1, and two chromosomes of two cells and six positions. In the larger file
  both cells are methylated everywhere; in the smaller one the first cell is methylated
  and the second unmethylated everywhere.
\<close>

definition max_variance :: "f64 list \<Rightarrow> f64 \<Rightarrow> f64" where
  "max_variance vs q = fold (\<lambda>x m. if fgt x m \<or> isnan m then x else m) (filter (\<lambda>x. \<not> isnan x) vs) NaN"

definition uniform_chrom :: chrom_file where
  "uniform_chrom =
     \<lparr>chrom_name = ''chrA'', file_size = 200,
      chrom_mat = \<lparr>data = [1, 1, 1, 1, 1, 1, 1, 1, 1, 1, 1, 1],
                   indices = [0, 1, 0, 1, 0, 1, 0, 1, 0, 1, 0, 1],
                   indptr = [0, 2, 4, 6, 8, 10, 12], n_rows = 6, n_cols = 2\<rparr>,
      smoothed_track = Some (\<lambda>p. if 0 \<le> p \<and> p < 6 then Some (Fin 1) else None)\<rparr>"

definition split_chrom :: chrom_file where
  "split_chrom =
     \<lparr>chrom_name = ''chrB'', file_size = 100,
      chrom_mat = \<lparr>data = [1, - 1, 1, - 1, 1, - 1, 1, - 1, 1, - 1, 1, - 1],
                   indices = [0, 1, 0, 1, 0, 1, 0, 1, 0, 1, 0, 1],
                   indptr = [0, 2, 4, 6, 8, 10, 12], n_rows = 6, n_cols = 2\<rparr>,
      smoothed_track = Some (\<lambda>p. if 0 \<le> p \<and> p < 6 then Some (Fin (1 / 2)) else None)\<rparr>"

section \<open>Properties of peak calling\<close>

lemma list_max_sorted: "xs \<noteq> [] \<Longrightarrow> sorted xs \<Longrightarrow> list_max xs = last xs"
proof (induction xs rule: rev_induct)
  case Nil
  then show ?case by simp
next
  case (snoc x xs)
  show ?case
  proof (cases xs)
    case Nil
    then show ?thesis by (simp add: list_max_def)
  next
    case (Cons y ys)
    with snoc have ih: "list_max xs = last xs" and le: "last xs \<le> x"
      by (auto simp: sorted_append)
    have "list_max (xs @ [x]) = max x (list_max xs)"
      using Cons by (simp add: list_max_def)
    with ih le show ?thesis by simp
  qed
qed

lemma sorted_butlast_int: "sorted (xs :: int list) \<Longrightarrow> sorted (butlast xs)"
  by (metis append_butlast_last_id butlast.simps(1) sorted_append)

lemma peak_shape_step:
  assumes "peak_shape h zs s"
  shows "peak_shape h (zs @ [vp]) (find_peaks_step cutoff h vp s)"
proof -
  have in_bl: "\<And>e. e \<in> set (butlast (peak_ends s)) \<Longrightarrow> e \<in> set (peak_ends s)"
    by (rule in_set_butlastD)
  show ?thesis
    using assms unfolding peak_shape_def find_peaks_step_def Let_def
    by (auto dest: in_bl)
qed

lemma peak_shape_fold:
  "peak_shape h zs (fold (find_peaks_step cutoff h) zs init_peak_state)"
proof (induction zs rule: rev_induct)
  case Nil
  then show ?case by (simp add: peak_shape_def init_peak_state_def)
next
  case (snoc vp zs)
  from peak_shape_step[OF snoc.IH] show ?case by simp
qed

lemma peak_shape_loop:
  "peak_shape h (zip vars centers) (find_peaks_loop vars centers cutoff h)"
  unfolding find_peaks_loop_def by (rule peak_shape_fold)

lemma peak_ends_sorted_step:
  assumes shape: "peak_shape h zs s" and ends: "sorted (peak_ends s)"
    and srt: "sorted (map snd (zs @ [vp]))"
  shows "sorted (peak_ends (find_peaks_step cutoff h vp s))"
proof -
  have ends_le: "\<forall>e \<in> set (peak_ends s). e \<le> snd vp + h"
  proof
    fix e assume "e \<in> set (peak_ends s)"
    with shape obtain c where c: "c \<in> set (map snd zs)" "e = c + h"
      unfolding peak_shape_def by blast
    from srt c(1) have "c \<le> snd vp" by (auto simp: sorted_append)
    with c(2) show "e \<le> snd vp + h" by simp
  qed
  show ?thesis
    using ends ends_le unfolding find_peaks_step_def Let_def
    by (auto simp: sorted_append sorted_butlast_int)
qed

lemma peak_ends_sorted_fold:
  "sorted (map snd zs) \<Longrightarrow>
   sorted (peak_ends (fold (find_peaks_step cutoff h) zs init_peak_state))"
proof (induction zs rule: rev_induct)
  case Nil
  then show ?case by (simp add: init_peak_state_def)
next
  case (snoc vp zs)
  from snoc.prems have "sorted (map snd zs)" by (simp add: sorted_append)
  with snoc.IH have "sorted (peak_ends (fold (find_peaks_step cutoff h) zs init_peak_state))" .
  from peak_ends_sorted_step[OF peak_shape_fold this snoc.prems] show ?case by simp
qed

lemma peak_ends_sorted_loop:
  assumes "sorted centers" "length vars = length centers"
  shows "sorted (peak_ends (find_peaks_loop vars centers cutoff h))"
  unfolding find_peaks_loop_def using assms by (intro peak_ends_sorted_fold) simp

lemma find_peaks_finish_ok:
  "peak_shape h zs s \<Longrightarrow>
   find_peaks_finish s =
     Inr (peak_starts s, if in_peak s then peak_ends s @ [pos s] else peak_ends s)"
  by (simp add: peak_shape_def find_peaks_finish_def)

lemma fold_max_init_le: "(a :: int) \<le> fold max xs a"
proof (induction xs arbitrary: a)
  case Nil show ?case by simp
next
  case (Cons y ys)
  have "max y a \<le> fold max ys (max y a)" by (rule Cons.IH)
  then show ?case by simp
qed

lemma fold_max_elem_le: "x \<in> set xs \<Longrightarrow> (x :: int) \<le> fold max xs a"
proof (induction xs arbitrary: a)
  case Nil then show ?case by simp
next
  case (Cons y ys)
  show ?case
  proof (cases "x = y")
    case True
    have "max y a \<le> fold max ys (max y a)" by (rule fold_max_init_le)
    with True show ?thesis by simp
  next
    case False
    with Cons.prems have "x \<in> set ys" by simp
    from Cons.IH[OF this] show ?thesis by simp
  qed
qed

lemma last_le_list_max: "xs \<noteq> [] \<Longrightarrow> last xs \<le> list_max xs"
proof (cases xs)
  case Nil
  assume "xs \<noteq> []" with Nil show ?thesis by simp
next
  case (Cons y ys)
  show ?thesis
  proof (cases "ys = []")
    case True
    with Cons show ?thesis by (simp add: list_max_def)
  next
    case False
    then have "last ys \<in> set ys" by simp
    then have "last ys \<le> fold max ys y" by (rule fold_max_elem_le)
    with Cons False show ?thesis by (simp add: list_max_def)
  qed
qed

text \<open>
  Claim C2. On a transition from NOT_IN_PEAK to IN_PEAK (the flag is off and the window's
  variance exceeds the cutoff), if there is a previously closed peak and its end, the
  last recorded one, is at least the window position minus the half bandwidth, that end
  is removed and no start is recorded; this holds in every state. With no recorded end
  the start recorded is the window position minus the half bandwidth, and with the
  windows in genomic order it is recorded exactly when the merge test on the last end
  fails. For the variances 0.1, 0.6, 0.55, 0.05, 0.6 at positions spaced by \<open>d\<close> with
  cutoff 0.5, the result is the single peak from the second window's position minus the
  half bandwidth to the last window's position when the spacing is at most twice the
  half bandwidth, and two peaks when the spacing is larger.
\<close>

theorem find_peaks_merge_rule:
  "(\<not> in_peak s \<and> fgt v cutoff \<and> peak_ends s \<noteq> [] \<and> p - h \<le> last (peak_ends s) \<longrightarrow>
      find_peaks_step cutoff h (v, p) s =
        s\<lparr>pos := p, in_peak := True, peak_ends := butlast (peak_ends s)\<rparr>)
   \<and> (\<not> in_peak s \<and> fgt v cutoff \<and> peak_ends s = [] \<longrightarrow>
      find_peaks_step cutoff h (v, p) s =
        s\<lparr>pos := p, in_peak := True, peak_starts := peak_starts s @ [p - h]\<rparr>)
   \<and> (sorted (centers @ [p]) \<and> length vars = length centers \<and>
      s = find_peaks_loop vars centers cutoff h \<and> \<not> in_peak s \<and> fgt v cutoff \<longrightarrow>
      find_peaks_step cutoff h (v, p) s =
        (if peak_ends s \<noteq> [] \<and> p - h \<le> last (peak_ends s)
         then s\<lparr>pos := p, in_peak := True, peak_ends := butlast (peak_ends s)\<rparr>
         else s\<lparr>pos := p, in_peak := True, peak_starts := peak_starts s @ [p - h]\<rparr>))
   \<and> (d \<le> 2 * h \<longrightarrow>
        find_peaks [Fin (1/10), Fin (6/10), Fin (55/100), Fin (5/100), Fin (6/10)]
          [p0, p0 + d, p0 + 2 * d, p0 + 3 * d, p0 + 4 * d] (Fin (1/2)) h
        = Inr ([p0 + d - h], [p0 + 4 * d]))
   \<and> (2 * h < d \<longrightarrow>
        find_peaks [Fin (1/10), Fin (6/10), Fin (55/100), Fin (5/100), Fin (6/10)]
          [p0, p0 + d, p0 + 2 * d, p0 + 3 * d, p0 + 4 * d] (Fin (1/2)) h
        = Inr ([p0 + d - h, p0 + 4 * d - h], [p0 + 3 * d + h, p0 + 4 * d]))"
proof (intro conjI impI)
  assume a: "\<not> in_peak s \<and> fgt v cutoff \<and> peak_ends s \<noteq> [] \<and> p - h \<le> last (peak_ends s)"
  then have "last (peak_ends s) \<le> list_max (peak_ends s)"
    using last_le_list_max by blast
  with a have "p - h \<le> list_max (peak_ends s)" by linarith
  with a show "find_peaks_step cutoff h (v, p) s =
        s\<lparr>pos := p, in_peak := True, peak_ends := butlast (peak_ends s)\<rparr>"
    by (simp add: find_peaks_step_def Let_def)
next
  assume "\<not> in_peak s \<and> fgt v cutoff \<and> peak_ends s = []"
  then show "find_peaks_step cutoff h (v, p) s =
        s\<lparr>pos := p, in_peak := True, peak_starts := peak_starts s @ [p - h]\<rparr>"
    by (simp add: find_peaks_step_def Let_def)
next
  assume a: "sorted (centers @ [p]) \<and> length vars = length centers \<and>
     s = find_peaks_loop vars centers cutoff h \<and> \<not> in_peak s \<and> fgt v cutoff"
  then have "sorted centers" by (simp add: sorted_append)
  with a have "sorted (peak_ends s)"
    using peak_ends_sorted_loop by blast
  then have "peak_ends s \<noteq> [] \<Longrightarrow> list_max (peak_ends s) = last (peak_ends s)"
    by (rule list_max_sorted[rotated])
  with a show "find_peaks_step cutoff h (v, p) s =
       (if peak_ends s \<noteq> [] \<and> p - h \<le> last (peak_ends s)
        then s\<lparr>pos := p, in_peak := True, peak_ends := butlast (peak_ends s)\<rparr>
        else s\<lparr>pos := p, in_peak := True, peak_starts := peak_starts s @ [p - h]\<rparr>)"
    by (auto simp: find_peaks_step_def Let_def)
next
  assume "d \<le> 2 * h"
  then show "find_peaks [Fin (1/10), Fin (6/10), Fin (55/100), Fin (5/100), Fin (6/10)]
          [p0, p0 + d, p0 + 2 * d, p0 + 3 * d, p0 + 4 * d] (Fin (1/2)) h
        = Inr ([p0 + d - h], [p0 + 4 * d])"
    by (simp add: find_peaks_def find_peaks_loop_def find_peaks_step_def
        find_peaks_finish_def init_peak_state_def list_max_def Let_def)
next
  assume "2 * h < d"
  then show "find_peaks [Fin (1/10), Fin (6/10), Fin (55/100), Fin (5/100), Fin (6/10)]
          [p0, p0 + d, p0 + 2 * d, p0 + 3 * d, p0 + 4 * d] (Fin (1/2)) h
        = Inr ([p0 + d - h, p0 + 4 * d - h], [p0 + 3 * d + h, p0 + 4 * d])"
    by (simp add: find_peaks_def find_peaks_loop_def find_peaks_step_def
        find_peaks_finish_def init_peak_state_def list_max_def Let_def)
qed

theorem find_peaks_merge_rule_witness:
  "\<not> in_peak (find_peaks_loop [Fin (3/5), Fin (1/10)] [0, 10] (Fin (1/2)) 5) \<and>
   fgt (Fin (3/5)) (Fin (1/2)) \<and>
   peak_ends (find_peaks_loop [Fin (3/5), Fin (1/10)] [0, 10] (Fin (1/2)) 5) = [15] \<and>
   (20 :: int) - 5 \<le> 15 \<and>
   find_peaks_step (Fin (1/2)) 5 (Fin (3/5), 20)
       (find_peaks_loop [Fin (3/5), Fin (1/10)] [0, 10] (Fin (1/2)) 5) =
     \<lparr>peak_starts = [-5], peak_ends = [], in_peak = True, pos = 20\<rparr> \<and>
   \<not> in_peak init_peak_state \<and> peak_ends init_peak_state = [] \<and>
   find_peaks_step (Fin (1/2)) 3 (Fin (3/5), 20) init_peak_state =
     \<lparr>peak_starts = [17], peak_ends = [], in_peak = True, pos = 20\<rparr> \<and>
   sorted ([0, 10] @ [20 :: int]) \<and> length [Fin (3/5), Fin (1/10)] = length [0, 10 :: int] \<and>
   (10 :: int) \<le> 2 * 5 \<and>
   find_peaks [Fin (1/10), Fin (6/10), Fin (55/100), Fin (5/100), Fin (6/10)]
      [0, 10, 20, 30, 40] (Fin (1/2)) 5 = Inr ([5], [40]) \<and>
   (2 :: int) * 3 < 10 \<and>
   find_peaks [Fin (1/10), Fin (6/10), Fin (55/100), Fin (5/100), Fin (6/10)]
      [0, 10, 20, 30, 40] (Fin (1/2)) 3 = Inr ([7, 37], [33, 40])"
proof -
  have loop: "find_peaks_loop [Fin (3/5), Fin (1/10)] [0, 10] (Fin (1/2)) 5 =
      \<lparr>peak_starts = [-5], peak_ends = [15], in_peak = False, pos = 10\<rparr>"
    by (simp add: find_peaks_loop_def find_peaks_step_def init_peak_state_def)
  have a: "find_peaks_step (Fin (1/2)) 5 (Fin (3/5), 20)
       (find_peaks_loop [Fin (3/5), Fin (1/10)] [0, 10] (Fin (1/2)) 5) =
     \<lparr>peak_starts = [-5], peak_ends = [], in_peak = True, pos = 20\<rparr>
     \<and> find_peaks [Fin (1/10), Fin (6/10), Fin (55/100), Fin (5/100), Fin (6/10)]
      [0, 10, 20, 30, 40] (Fin (1/2)) 5 = Inr ([5], [40])"
    using find_peaks_merge_rule [where
        s = "find_peaks_loop [Fin (3/5), Fin (1/10)] [0, 10] (Fin (1/2)) 5" and v = "Fin (3/5)"
        and cutoff = "Fin (1/2)" and p = 20 and h = 5 and centers = "[0, 10]"
        and vars = "[Fin (3/5), Fin (1/10)]" and d = 10 and ?p0.0 = 0]
    by (simp add: loop)
  have b: "find_peaks_step (Fin (1/2)) 3 (Fin (3/5), 20) init_peak_state =
     \<lparr>peak_starts = [17], peak_ends = [], in_peak = True, pos = 20\<rparr>
     \<and> find_peaks [Fin (1/10), Fin (6/10), Fin (55/100), Fin (5/100), Fin (6/10)]
      [0, 10, 20, 30, 40] (Fin (1/2)) 3 = Inr ([7, 37], [33, 40])"
    using find_peaks_merge_rule [where s = init_peak_state and v = "Fin (3/5)"
        and cutoff = "Fin (1/2)" and p = 20 and h = 3 and centers = "[]" and vars = "[]"
        and d = 10 and ?p0.0 = 0]
    by (simp add: init_peak_state_def)
  from a b loop show ?thesis by (simp add: init_peak_state_def)
qed

text \<open>
  With a spacing of 10 and a half bandwidth of 2 the same variances give two peaks: the
  end 32 of the first is below the candidate start 38 of the second.
\<close>

theorem find_peaks_wide_step_two_peaks:
  "find_peaks [Fin (1/10), Fin (6/10), Fin (55/100), Fin (5/100), Fin (6/10)]
      [0, 10, 20, 30, 40] (Fin (1/2)) 2 = Inr ([8, 38], [32, 40])"
  by (simp add: find_peaks_def find_peaks_loop_def find_peaks_step_def
      find_peaks_finish_def init_peak_state_def list_max_def)

text \<open>
  Claim C9. If the flag is still on after the last window, the result's last end is the
  last window's position itself, and the assertion on the lengths holds. A peak closed
  inside the loop gets the window position plus the half bandwidth as its end, and
  every end recorded inside the loop has this form.
\<close>

theorem find_peaks_open_peak_end_not_extended:
  "(length vars = length centers \<and> in_peak (find_peaks_loop vars centers cutoff h) \<longrightarrow>
      centers \<noteq> [] \<and>
      find_peaks vars centers cutoff h =
        Inr (peak_starts (find_peaks_loop vars centers cutoff h),
             peak_ends (find_peaks_loop vars centers cutoff h) @ [last centers]))
   \<and> (in_peak s \<and> \<not> fgt v cutoff \<longrightarrow>
        find_peaks_step cutoff h (v, p) s =
          s\<lparr>pos := p, in_peak := False, peak_ends := peak_ends s @ [p + h]\<rparr>)
   \<and> (\<forall>e \<in> set (peak_ends (find_peaks_loop vars centers cutoff h)).
        \<exists>c \<in> set centers. e = c + h)"
proof (intro conjI impI)
  let ?s = "find_peaks_loop vars centers cutoff h"
  have shape: "peak_shape h (zip vars centers) ?s" by (rule peak_shape_loop)
  {
    assume a: "length vars = length centers \<and> in_peak ?s"
    with shape have ne: "zip vars centers \<noteq> []" and p: "pos ?s = snd (last (zip vars centers))"
      by (simp_all add: peak_shape_def)
    from ne show "centers \<noteq> []" by auto
    from a ne have "snd (last (zip vars centers)) = last centers"
      by (metis last_map map_snd_zip)
    with p a find_peaks_finish_ok[OF shape]
    show "find_peaks vars centers cutoff h = Inr (peak_starts ?s, peak_ends ?s @ [last centers])"
      by (simp add: find_peaks_def)
  }
  show "\<forall>e \<in> set (peak_ends ?s). \<exists>c \<in> set centers. e = c + h"
  proof
    fix e assume "e \<in> set (peak_ends ?s)"
    with shape obtain c where "c \<in> set (map snd (zip vars centers))" "e = c + h"
      unfolding peak_shape_def by blast
    moreover have "set (map snd (zip vars centers)) \<subseteq> set centers"
      by (auto dest: set_zip_rightD)
    ultimately show "\<exists>c \<in> set centers. e = c + h" by blast
  qed
next
  assume "in_peak s \<and> \<not> fgt v cutoff"
  then show "find_peaks_step cutoff h (v, p) s =
          s\<lparr>pos := p, in_peak := False, peak_ends := peak_ends s @ [p + h]\<rparr>"
    by (simp add: find_peaks_step_def Let_def)
qed

theorem find_peaks_open_peak_end_not_extended_witness:
  "length [Fin (1/10), Fin (3/5)] = length [0, 10 :: int] \<and>
   in_peak (find_peaks_loop [Fin (1/10), Fin (3/5)] [0, 10] (Fin (1/2)) 5) \<and>
   find_peaks [Fin (1/10), Fin (3/5)] [0, 10] (Fin (1/2)) 5 = Inr ([5], [10]) \<and>
   in_peak \<lparr>peak_starts = [5], peak_ends = [], in_peak = True, pos = 10\<rparr> \<and>
   \<not> fgt (Fin (1/10)) (Fin (1/2)) \<and>
   find_peaks_step (Fin (1/2)) 5 (Fin (1/10), 20)
      \<lparr>peak_starts = [5], peak_ends = [], in_peak = True, pos = 10\<rparr> =
     \<lparr>peak_starts = [5], peak_ends = [25], in_peak = False, pos = 20\<rparr> \<and>
   peak_ends (find_peaks_loop [Fin (1/10), Fin (3/5), Fin (1/10)] [0, 10, 20] (Fin (1/2)) 5) = [25]"
proof -
  have loop: "find_peaks_loop [Fin (1/10), Fin (3/5)] [0, 10] (Fin (1/2)) 5 =
      \<lparr>peak_starts = [5], peak_ends = [], in_peak = True, pos = 10\<rparr>"
    by (simp add: find_peaks_loop_def find_peaks_step_def init_peak_state_def)
  have loop3: "find_peaks_loop [Fin (1/10), Fin (3/5), Fin (1/10)] [0, 10, 20] (Fin (1/2)) 5 =
      \<lparr>peak_starts = [5], peak_ends = [25], in_peak = False, pos = 20\<rparr>"
    by (simp add: find_peaks_loop_def find_peaks_step_def init_peak_state_def)
  show ?thesis
    using find_peaks_open_peak_end_not_extended [of "[Fin (1/10), Fin (3/5)]" "[0, 10]" "Fin (1/2)" 5
        "\<lparr>peak_starts = [5], peak_ends = [], in_peak = True, pos = 10\<rparr>" "Fin (1/10)" 20]
    by (simp add: loop loop3)
qed

section \<open>Properties of ingestion\<close>

lemma dump_record_ambiguous:
  "n_meth \<noteq> 0 \<Longrightarrow> n_unmeth \<noteq> 0 \<Longrightarrow> dump_record cell_n (chrom, p, n_meth, n_unmeth) st = Inr st"
  by (simp add: dump_record_def)

lemma dump_record_clean:
  assumes "dom (coo_files st) = dom (chrom_sizes st)" "n_meth = 0 \<or> n_unmeth = 0"
  shows "dump_record cell_n (chrom, p, n_meth, n_unmeth) st =
     Inr \<lparr>coo_files = (coo_files st)(chrom \<mapsto>
             written st chrom @ [(p, cell_n, if n_meth > 0 then 1 else - 1)]),
          chrom_sizes = (chrom_sizes st)(chrom \<mapsto>
             max p (case chrom_sizes st chrom of None \<Rightarrow> 0 | Some z \<Rightarrow> z))\<rparr>"
proof (cases "coo_files st chrom")
  case None
  with assms(1) have "chrom_sizes st chrom = None" by auto
  with None assms(2) show ?thesis
    by (auto simp: dump_record_def Let_def max_def written_def)
next
  case (Some w)
  with assms(1) obtain z where "chrom_sizes st chrom = Some z" by auto
  with Some assms(2) show ?thesis
    by (auto simp: dump_record_def Let_def max_def fun_upd_idem written_def)
qed

lemma dump_record_step:
  assumes "dump_inv st"
  shows "\<exists>st'. dump_record cell_n vals st = Inr st' \<and> dump_inv st' \<and>
     (\<forall>c. written st' c = written st c @
        map (entry_of cell_n) (filter (\<lambda>v. clean_call v \<and> fst v = c) [vals]))"
proof -
  obtain chrom p n_meth n_unmeth where v: "vals = (chrom, p, n_meth, n_unmeth)"
    by (cases vals) auto
  show ?thesis
  proof (cases "n_meth \<noteq> 0 \<and> n_unmeth \<noteq> 0")
    case True
    with assms v show ?thesis
      by (simp add: dump_record_ambiguous clean_call_def)
  next
    case False
    then have cl: "n_meth = 0 \<or> n_unmeth = 0" by blast
    from assms have d: "dom (coo_files st) = dom (chrom_sizes st)" by (simp add: dump_inv_def)
    let ?st' = "\<lparr>coo_files = (coo_files st)(chrom \<mapsto>
             written st chrom @ [(p, cell_n, if n_meth > 0 then 1 else - 1)]),
          chrom_sizes = (chrom_sizes st)(chrom \<mapsto>
             max p (case chrom_sizes st chrom of None \<Rightarrow> 0 | Some z \<Rightarrow> z))\<rparr>"
    have eq: "dump_record cell_n vals st = Inr ?st'"
      unfolding v by (rule dump_record_clean[OF d cl])
    have w: "\<forall>c. written ?st' c = written st c @
        map (entry_of cell_n) (filter (\<lambda>v. clean_call v \<and> fst v = c) [vals])"
      using cl by (auto simp: v written_def clean_call_def entry_of_def)
    have wnone: "chrom_sizes st chrom = None \<Longrightarrow> written st chrom = []"
      using d by (auto simp: written_def split: option.splits)
    have old: "\<And>c z e. chrom_sizes st c = Some z \<Longrightarrow> e \<in> set (written st c) \<Longrightarrow> fst e \<le> z"
      and nonneg: "\<And>c z. chrom_sizes st c = Some z \<Longrightarrow> 0 \<le> z"
      and nonempty: "\<And>c w. coo_files st c = Some w \<Longrightarrow> w \<noteq> []"
      using assms unfolding dump_inv_def by blast+
    have i1: "dom (coo_files ?st') = dom (chrom_sizes ?st')" using d by simp
    have i2: "\<forall>c w. coo_files ?st' c = Some w \<longrightarrow> w \<noteq> []"
      using nonempty by auto
    have i3: "\<forall>c z. chrom_sizes ?st' c = Some z \<longrightarrow>
        0 \<le> z \<and> (\<forall>e \<in> set (written ?st' c). fst e \<le> z)"
    proof (intro allI impI)
      fix c z assume cz: "chrom_sizes ?st' c = Some z"
      show "0 \<le> z \<and> (\<forall>e \<in> set (written ?st' c). fst e \<le> z)"
      proof (cases "c = chrom")
        case False
        with cz have "chrom_sizes st c = Some z" by simp
        moreover from False have "written ?st' c = written st c" by (simp add: written_def)
        ultimately show ?thesis using old nonneg by auto
      next
        case True
        show ?thesis
        proof (cases "chrom_sizes st chrom")
          case None
          with True cz wnone show ?thesis by (auto simp: written_def)
        next
          case (Some z0)
          with True cz have z: "z = max p z0" by simp
          from Some old nonneg have "0 \<le> z0" "\<forall>e \<in> set (written st chrom). fst e \<le> z0"
            by auto
          then have "0 \<le> max p z0" "\<forall>e \<in> set (written st chrom). fst e \<le> max p z0"
            by (auto simp: max_def)
          moreover have "written ?st' chrom = written st chrom @ [(p, cell_n, if n_meth > 0 then 1 else - 1)]"
            by (simp add: written_def)
          ultimately show ?thesis using z True by auto
        qed
      qed
    qed
    have inv: "dump_inv ?st'"
      unfolding dump_inv_def using i1 i2 i3 by blast
    from eq w inv show ?thesis by blast
  qed
qed

lemma dump_cell_run:
  "dump_inv st \<Longrightarrow>
   \<exists>st'. dump_cell coverage cell_n lines st = Inr st' \<and> dump_inv st' \<and>
     (\<forall>c. written st' c = written st c @ map (entry_of cell_n) (clean_calls coverage c lines))"
proof (induction lines arbitrary: st)
  case Nil
  then show ?case by (simp add: clean_calls_def)
next
  case (Cons line lines)
  from dump_record_step[OF Cons.prems, of cell_n "line_to_values coverage line"]
  obtain st1 where s1: "dump_record cell_n (line_to_values coverage line) st = Inr st1"
    and i1: "dump_inv st1"
    and w1: "\<forall>c. written st1 c = written st c @ map (entry_of cell_n)
        (filter (\<lambda>v. clean_call v \<and> fst v = c) [line_to_values coverage line])"
    by blast
  from Cons.IH[OF i1] obtain st2 where s2: "dump_cell coverage cell_n lines st1 = Inr st2"
    and i2: "dump_inv st2"
    and w2: "\<forall>c. written st2 c = written st1 c @ map (entry_of cell_n) (clean_calls coverage c lines)"
    by blast
  have "dump_cell coverage cell_n (line # lines) st = Inr st2" using s1 s2 by simp
  moreover have "\<forall>c. written st2 c = written st c @
      map (entry_of cell_n) (clean_calls coverage c (line # lines))"
    using w1 w2 by (simp add: clean_calls_def)
  ultimately show ?case using i2 by blast
qed

lemma dump_cells_run:
  "dump_inv st \<Longrightarrow>
   \<exists>st'. dump_cells coverage cell_n fpaths st = Inr st' \<and> dump_inv st' \<and>
     (\<forall>c. written st' c = written st c @ staged_entries coverage c cell_n fpaths)"
proof (induction fpaths arbitrary: st cell_n)
  case Nil
  then show ?case by simp
next
  case (Cons cov_file fpaths)
  from dump_cell_run[OF Cons.prems, of coverage cell_n cov_file]
  obtain st1 where s1: "dump_cell coverage cell_n cov_file st = Inr st1"
    and i1: "dump_inv st1"
    and w1: "\<forall>c. written st1 c = written st c @ map (entry_of cell_n) (clean_calls coverage c cov_file)"
    by blast
  from Cons.IH[OF i1, of "Suc cell_n"] obtain st2
    where s2: "dump_cells coverage (Suc cell_n) fpaths st1 = Inr st2"
    and i2: "dump_inv st2"
    and w2: "\<forall>c. written st2 c = written st1 c @ staged_entries coverage c (Suc cell_n) fpaths"
    by blast
  have "dump_cells coverage cell_n (cov_file # fpaths) st = Inr st2" using s1 s2 by simp
  moreover have "\<forall>c. written st2 c = written st c @ staged_entries coverage c cell_n (cov_file # fpaths)"
    using w1 w2 by simp
  ultimately show ?case using i2 by blast
qed

lemma dump_inv_init: "dump_inv init_dump_state"
  by (simp add: dump_inv_def init_dump_state_def)

lemma dump_coo_files_run:
  "\<exists>st. dump_coo_files coverage fpaths = Inr st \<and> dump_inv st \<and>
     (\<forall>c. written st c = staged_entries coverage c 0 fpaths)"
proof -
  from dump_cells_run[OF dump_inv_init, of coverage 0 fpaths]
  show ?thesis by (simp add: dump_coo_files_def written_def init_dump_state_def)
qed

section \<open>Properties of the smoother\<close>

lemma upt13: "[0..<13] = [0,1,2,3,4,5,6,7,8,9,10,11,12]"
  by (simp add: upt_rec)

lemma tricube_kernel_4: "tricube_kernel 4 = [Fin 0, Fin (343 / 512), Fin 1, Fin (343 / 512)]"
  by (simp add: tricube_kernel_def fcube_def fsub_def upt_rec Let_def)

lemma length_tricube_kernel: "length (tricube_kernel b) = nat b"
  by (simp add: tricube_kernel_def Let_def)

lemma Smoother_init_fields:
  "hbw (Smoother_init mat b w) = b div 2"
  "kernel (Smoother_init mat b w) = tricube_kernel b"
  "weigh (Smoother_init mat b w) = w"
  "length (mfracs (Smoother_init mat b w)) = n_rows mat"
  by (simp_all add: Smoother_init_def Let_def getnnz_rows_def sum_positive_rows_def)

lemma two_site_mfracs: "mfracs (Smoother_init two_site_chrom 4 False) =
   [NaN,NaN,NaN,NaN,NaN,NaN,NaN,NaN,NaN,NaN,Fin 1,NaN,Fin 0]"
  by (simp add: Smoother_init_def two_site_chrom_def getnnz_rows_def sum_positive_rows_def
      row_data_def upt13 Let_def)

lemma py_slice_8_12:
  assumes "12 \<le> length xs"
  shows "py_slice xs 8 12 = [xs ! 8, xs ! 9, xs ! 10, xs ! 11]"
proof -
  have "drop 11 xs = xs ! 11 # drop 12 xs" using Cons_nth_drop_Suc[of 11 xs] assms by simp
  moreover have "drop 10 xs = xs ! 10 # drop 11 xs" using Cons_nth_drop_Suc[of 10 xs] assms by simp
  moreover have "drop 9 xs = xs ! 9 # drop 10 xs" using Cons_nth_drop_Suc[of 9 xs] assms by simp
  moreover have "drop 8 xs = xs ! 8 # drop 9 xs" using Cons_nth_drop_Suc[of 8 xs] assms by simp
  ultimately have d: "drop 8 xs = xs ! 8 # xs ! 9 # xs ! 10 # xs ! 11 # drop 12 xs"
    by simp
  have "slice_bound (length xs) 8 = 8" "slice_bound (length xs) 12 = 12"
    using assms by (simp_all add: slice_bound_def)
  then show ?thesis by (simp add: py_slice_def d)
qed

lemma length_py_slice:
  "length (py_slice xs a b) = slice_bound (length xs) b - slice_bound (length xs) a"
  by (simp add: py_slice_def Let_def slice_bound_def)

lemma smooth_val_mismatch:
  assumes "length (py_slice (mfracs sm) (int i - hbw sm) (int i + hbw sm)) \<noteq> length (kernel sm)"
  shows "smooth_val sm i = Inl IndexError"
  using assms by (simp add: smooth_val_def Let_def bool_index_def)

lemma smooth_val_match:
  assumes "length (py_slice (mfracs sm) (int i - hbw sm) (int i + hbw sm)) = length (kernel sm)"
    and "\<not> weigh sm"
  shows "\<exists>v. smooth_val sm i = Inr v"
  using assms by (simp add: smooth_val_def Let_def bool_index_def)

lemma window_mismatch_iff:
  assumes "even b" "1 \<le> b" "i < n"
  shows "slice_bound n (int i + b div 2) - slice_bound n (int i - b div 2) \<noteq> nat b
     \<longleftrightarrow> int i < b div 2 \<or> int n < int i + b div 2"
  using assms unfolding slice_bound_def by (auto simp: min_def max_def elim!: evenE)

lemma smooth_val_isolated_10:
  assumes len: "12 \<le> length (mfracs sm)" and h: "hbw sm = 2" and k: "kernel sm = tricube_kernel 4"
    and w: "\<not> weigh sm"
    and fr: "mfracs sm ! 10 = Fin x" "mfracs sm ! 8 = NaN" "mfracs sm ! 9 = NaN" "mfracs sm ! 11 = NaN"
  shows "smooth_val sm 10 = Inr (Fin x)"
proof -
  have win: "py_slice (mfracs sm) (int 10 - hbw sm) (int 10 + hbw sm) = [NaN, NaN, Fin x, NaN]"
    using py_slice_8_12[OF len] fr h by simp
  show ?thesis
    unfolding smooth_val_def win k tricube_kernel_4 using w
    by (simp add: bool_index_def isnan_def fsum_def)
qed

text \<open>
  Claim C7. With bandwidth 4 and no weighting, the window of position 10 is the slice
  from 8 up to but not including 12, so it holds the fractions of positions 8, 9, 10 and
  11. When of these only position 10 has a fraction, the smoothed value at position 10
  is that fraction, whatever the fraction at position 12 is.
\<close>

theorem smooth_at_10_is_own_fraction:
  "sm = Smoother_init mat 4 False \<and> 12 \<le> n_rows mat \<and> mfracs sm ! 10 = Fin x \<and>
   mfracs sm ! 8 = NaN \<and> mfracs sm ! 9 = NaN \<and> mfracs sm ! 11 = NaN \<longrightarrow>
   py_slice (mfracs sm) (int 10 - hbw sm) (int 10 + hbw sm) =
     [mfracs sm ! 8, mfracs sm ! 9, mfracs sm ! 10, mfracs sm ! 11] \<and>
   smooth_at sm 10 = Inr (Fin x)"
proof
  assume a: "sm = Smoother_init mat 4 False \<and> 12 \<le> n_rows mat \<and> mfracs sm ! 10 = Fin x \<and>
   mfracs sm ! 8 = NaN \<and> mfracs sm ! 9 = NaN \<and> mfracs sm ! 11 = NaN"
  then have len: "12 \<le> length (mfracs sm)" and h: "hbw sm = 2"
    and k: "kernel sm = tricube_kernel 4" and w: "\<not> weigh sm"
    by (simp_all add: Smoother_init_fields)
  from a have fr: "mfracs sm ! 10 = Fin x" "mfracs sm ! 8 = NaN" "mfracs sm ! 9 = NaN"
    "mfracs sm ! 11 = NaN" by blast+
  have "smooth_val sm 10 = Inr (Fin x)"
    by (rule smooth_val_isolated_10[OF len h k w fr])
  then have "smooth_at sm 10 = Inr (Fin x)" by (simp add: smooth_at_def)
  moreover have "py_slice (mfracs sm) (int 10 - hbw sm) (int 10 + hbw sm) =
     [mfracs sm ! 8, mfracs sm ! 9, mfracs sm ! 10, mfracs sm ! 11]"
    using py_slice_8_12[OF len] h by simp
  ultimately show "py_slice (mfracs sm) (int 10 - hbw sm) (int 10 + hbw sm) =
     [mfracs sm ! 8, mfracs sm ! 9, mfracs sm ! 10, mfracs sm ! 11] \<and>
   smooth_at sm 10 = Inr (Fin x)" by simp
qed

theorem smooth_at_10_is_own_fraction_witness:
  "12 \<le> n_rows two_site_chrom \<and>
   mfracs (Smoother_init two_site_chrom 4 False) ! 10 = Fin 1 \<and>
   mfracs (Smoother_init two_site_chrom 4 False) ! 8 = NaN \<and>
   mfracs (Smoother_init two_site_chrom 4 False) ! 9 = NaN \<and>
   mfracs (Smoother_init two_site_chrom 4 False) ! 11 = NaN \<and>
   mfracs (Smoother_init two_site_chrom 4 False) ! 12 = Fin 0 \<and>
   smooth_at (Smoother_init two_site_chrom 4 False) 10 = Inr (Fin 1)"
  using smooth_at_10_is_own_fraction [of "Smoother_init two_site_chrom 4 False" two_site_chrom 1]
  by (simp add: two_site_mfracs) (simp add: two_site_chrom_def)

text \<open>
  For fractions 1 at position 10 and 0 at position 12 the window of position 10 holds
  the single fraction 1 and the smoothed value is 1, not a value between the two
  fractions.
\<close>

theorem smooth_two_sites_no_blend:
  "mfracs (Smoother_init two_site_chrom 4 False) =
     [NaN, NaN, NaN, NaN, NaN, NaN, NaN, NaN, NaN, NaN, Fin 1, NaN, Fin 0] \<and>
   py_slice (mfracs (Smoother_init two_site_chrom 4 False))
     (int 10 - hbw (Smoother_init two_site_chrom 4 False))
     (int 10 + hbw (Smoother_init two_site_chrom 4 False)) = [NaN, NaN, Fin 1, NaN] \<and>
   smooth_at (Smoother_init two_site_chrom 4 False) 10 = Inr (Fin 1)"
proof -
  let ?sm = "Smoother_init two_site_chrom 4 False"
  have len: "12 \<le> length (mfracs ?sm)" by (simp add: two_site_mfracs)
  have h: "hbw ?sm = 2" and k: "kernel ?sm = tricube_kernel 4" and w: "\<not> weigh ?sm"
    by (simp_all add: Smoother_init_fields)
  have "smooth_val ?sm 10 = Inr (Fin 1)"
    by (rule smooth_val_isolated_10[OF len h k w]) (simp_all add: two_site_mfracs)
  then have "smooth_at ?sm 10 = Inr (Fin 1)" by (simp add: smooth_at_def)
  moreover have "py_slice (mfracs ?sm) (int 10 - hbw ?sm) (int 10 + hbw ?sm) = [NaN, NaN, Fin 1, NaN]"
    using py_slice_8_12[OF len] h by (simp add: two_site_mfracs)
  ultimately show ?thesis by (simp add: two_site_mfracs)
qed

text \<open>
  Claim C8. When the window slice and the kernel differ in length, indexing the kernel
  with the window's mask raises \<^verbatim>\<open>IndexError\<close> and the position gets NaN. For a
  smoother built from a matrix with an even bandwidth of at least 2, the lengths differ
  at a row exactly when the row is less than the half bandwidth (the slice's start is
  negative, near the chromosome's start) or the row plus the half bandwidth exceeds the
  number of rows (the slice is cut at the chromosome's end).
\<close>

theorem smooth_length_mismatch_gives_nan:
  "(length (py_slice (mfracs sm) (int i - hbw sm) (int i + hbw sm)) \<noteq> length (kernel sm) \<longrightarrow>
      smooth_val sm i = Inl IndexError \<and> smooth_at sm i = Inr NaN)
   \<and> (even b \<and> 2 \<le> b \<and> j < n_rows mat \<longrightarrow>
        (length (py_slice (mfracs (Smoother_init mat b w)) (int j - hbw (Smoother_init mat b w))
            (int j + hbw (Smoother_init mat b w))) \<noteq> length (kernel (Smoother_init mat b w))
         \<longleftrightarrow> int j < b div 2 \<or> int (n_rows mat) < int j + b div 2))"
proof (intro conjI impI)
  assume "length (py_slice (mfracs sm) (int i - hbw sm) (int i + hbw sm)) \<noteq> length (kernel sm)"
  then have "smooth_val sm i = Inl IndexError" by (rule smooth_val_mismatch)
  then show "smooth_val sm i = Inl IndexError" "smooth_at sm i = Inr NaN"
    by (simp_all add: smooth_at_def)
next
  assume "even b \<and> 2 \<le> b \<and> j < n_rows mat"
  then show "length (py_slice (mfracs (Smoother_init mat b w)) (int j - hbw (Smoother_init mat b w))
            (int j + hbw (Smoother_init mat b w))) \<noteq> length (kernel (Smoother_init mat b w))
         \<longleftrightarrow> int j < b div 2 \<or> int (n_rows mat) < int j + b div 2"
    using window_mismatch_iff[of b j "n_rows mat"]
    by (simp add: length_py_slice Smoother_init_fields length_tricube_kernel)
qed

theorem smooth_length_mismatch_gives_nan_witness:
  "length (py_slice (mfracs (Smoother_init two_site_chrom 4 False))
      (int 12 - hbw (Smoother_init two_site_chrom 4 False))
      (int 12 + hbw (Smoother_init two_site_chrom 4 False)))
     \<noteq> length (kernel (Smoother_init two_site_chrom 4 False)) \<and>
   smooth_at (Smoother_init two_site_chrom 4 False) 12 = Inr NaN \<and>
   even (4 :: int) \<and> (2 :: int) \<le> 4 \<and> 12 < n_rows two_site_chrom \<and> \<not> int 12 < 4 div 2 \<and>
   int (n_rows two_site_chrom) < int 12 + 4 div 2"
proof -
  have n: "n_rows two_site_chrom = 13" by (simp add: two_site_chrom_def)
  show ?thesis
    using smooth_length_mismatch_gives_nan [of "Smoother_init two_site_chrom 4 False" 12 4 12
        two_site_chrom False]
    by (simp add: n)
qed

text \<open>
  At the last row of the two-site chromosome the slice starts at row 10, which is not
  negative, and is cut at the end of the array to three values against four kernel
  weights: the mismatch occurs away from the chromosome's start.
\<close>

theorem smooth_mismatch_at_chromosome_end:
  "\<not> int 12 - hbw (Smoother_init two_site_chrom 4 False) < 0 \<and>
   py_slice (mfracs (Smoother_init two_site_chrom 4 False))
      (int 12 - hbw (Smoother_init two_site_chrom 4 False))
      (int 12 + hbw (Smoother_init two_site_chrom 4 False)) = [Fin 1, NaN, Fin 0] \<and>
   length (kernel (Smoother_init two_site_chrom 4 False)) = 4 \<and>
   smooth_val (Smoother_init two_site_chrom 4 False) 12 = Inl IndexError \<and>
   smooth_at (Smoother_init two_site_chrom 4 False) 12 = Inr NaN"
proof -
  let ?sm = "Smoother_init two_site_chrom 4 False"
  have h: "hbw ?sm = 2" and k: "length (kernel ?sm) = 4"
    by (simp_all add: Smoother_init_fields length_tricube_kernel)
  have win: "py_slice (mfracs ?sm) (int 12 - hbw ?sm) (int 12 + hbw ?sm) = [Fin 1, NaN, Fin 0]"
    by (simp add: h two_site_mfracs py_slice_def slice_bound_def)
  have "length (py_slice (mfracs ?sm) (int 12 - hbw ?sm) (int 12 + hbw ?sm)) \<noteq> length (kernel ?sm)"
    unfolding win k by simp
  then have "smooth_val ?sm 12 = Inl IndexError" by (rule smooth_val_mismatch)
  then show ?thesis using h k win by (simp add: smooth_at_def)
qed

section \<open>Properties of region statistics\<close>

lemma py_slice_nth:
  assumes "0 \<le> a" "a \<le> b" "nat b \<le> length xs"
  shows "py_slice xs a b = map (\<lambda>k. xs ! k) [nat a ..< nat b]"
proof -
  have lo: "slice_bound (length xs) a = nat a" and hi: "slice_bound (length xs) b = nat b"
    using assms by (auto simp: slice_bound_def)
  have "take (nat b - nat a) (drop (nat a) xs) = map (\<lambda>k. xs ! k) [nat a ..< nat b]"
  proof (rule nth_equalityI)
    show "length (take (nat b - nat a) (drop (nat a) xs)) = length (map (\<lambda>k. xs ! k) [nat a ..< nat b])"
      using assms by simp
  next
    fix i assume "i < length (take (nat b - nat a) (drop (nat a) xs))"
    then show "take (nat b - nat a) (drop (nat a) xs) ! i = map (\<lambda>k. xs ! k) [nat a ..< nat b] ! i"
      using assms by simp
  qed
  then show ?thesis by (simp add: py_slice_def lo hi)
qed

lemma np_get_nonneg: "0 \<le> i \<Longrightarrow> nat i < length xs \<Longrightarrow> np_get xs i = Inr (xs ! nat i)"
  by (simp add: np_get_def Let_def)

lemma region_loop_ok:
  assumes "\<forall>e \<in> set es. fst e < n" "length nm = n" "length nt = n"
  shows "\<exists>nm' nt'. region_loop es (nm, nt) = Inr (nm', nt') \<and> length nm' = n \<and> length nt' = n \<and>
     (\<forall>c < n. nt' ! c = nt ! c + int (length (filter (\<lambda>e. fst e = c) es)) \<and>
              nm' ! c = nm ! c + sum_list (map snd (filter (\<lambda>e. fst e = c \<and> snd e \<noteq> - 1) es)))"
  using assms
proof (induction es arbitrary: nm nt)
  case Nil
  then show ?case by simp
next
  case (Cons e es)
  obtain cell_i v where e: "e = (cell_i, v)" by (cases e)
  with Cons.prems have ci: "cell_i < n" by simp
  let ?nt = "nt[cell_i := nt ! cell_i + 1]"
  let ?nm = "if v = - 1 then nm else nm[cell_i := nm ! cell_i + v]"
  have step: "region_loop (e # es) (nm, nt) = region_loop es (?nm, ?nt)"
    using ci Cons.prems by (simp add: e Let_def)
  have "\<forall>e \<in> set es. fst e < n" "length ?nm = n" "length ?nt = n"
    using Cons.prems by simp_all
  from Cons.IH[OF this] obtain nm' nt' where r: "region_loop es (?nm, ?nt) = Inr (nm', nt')"
    "length nm' = n" "length nt' = n"
    and c: "\<forall>c < n. nt' ! c = ?nt ! c + int (length (filter (\<lambda>e. fst e = c) es)) \<and>
              nm' ! c = ?nm ! c + sum_list (map snd (filter (\<lambda>e. fst e = c \<and> snd e \<noteq> - 1) es))"
    by blast
  have "\<forall>c < n. nt' ! c = nt ! c + int (length (filter (\<lambda>e. fst e = c) (e # es))) \<and>
              nm' ! c = nm ! c + sum_list (map snd (filter (\<lambda>e. fst e = c \<and> snd e \<noteq> - 1) (e # es)))"
  proof (intro allI impI)
    fix c assume "c < n"
    with c have h: "nt' ! c = ?nt ! c + int (length (filter (\<lambda>e. fst e = c) es))"
      "nm' ! c = ?nm ! c + sum_list (map snd (filter (\<lambda>e. fst e = c \<and> snd e \<noteq> - 1) es))"
      by blast+
    show "nt' ! c = nt ! c + int (length (filter (\<lambda>e. fst e = c) (e # es))) \<and>
              nm' ! c = nm ! c + sum_list (map snd (filter (\<lambda>e. fst e = c \<and> snd e \<noteq> - 1) (e # es)))"
      using h ci Cons.prems(2,3) by (auto simp: e nth_list_update)
  qed
  with step r show ?case by auto
qed

lemma count_n_cpg_fold:
  assumes "\<And>r. s \<le> r \<Longrightarrow> r < s + k \<Longrightarrow> g r \<le> g (Suc r)"
  shows "fold count_n_cpg_step (map g [Suc s ..< Suc (s + k)]) (g s, 0) =
     (g (s + k), int (length (filter (\<lambda>r. g r < g (Suc r)) [s ..< s + k])))"
  using assms
proof (induction k)
  case 0
  then show ?case by simp
next
  case (Suc k)
  have ih: "fold count_n_cpg_step (map g [Suc s ..< Suc (s + k)]) (g s, 0) =
     (g (s + k), int (length (filter (\<lambda>r. g r < g (Suc r)) [s ..< s + k])))"
    using Suc.prems by (intro Suc.IH) simp
  have le: "g (s + k) \<le> g (Suc (s + k))" using Suc.prems by simp
  have u1: "[Suc s ..< Suc (s + Suc k)] = [Suc s ..< Suc (s + k)] @ [Suc (s + k)]" by simp
  have u2: "[s ..< s + Suc k] = [s ..< s + k] @ [s + k]" by simp
  have "fold count_n_cpg_step (map g [Suc s ..< Suc (s + Suc k)]) (g s, 0) =
      count_n_cpg_step (g (Suc (s + k)))
        (g (s + k), int (length (filter (\<lambda>r. g r < g (Suc r)) [s ..< s + k])))"
    unfolding u1 by (simp add: ih del: upt_Suc)
  also have "\<dots> = (g (s + Suc k), int (length (filter (\<lambda>r. g r < g (Suc r)) [s ..< s + Suc k])))"
    unfolding u2 using le by (simp add: count_n_cpg_step_def del: upt_Suc)
  finally show ?case .
qed

lemma divide_counts_zeros: "divide_counts (replicate n 0) (replicate n 0) = replicate n NaN"
  by (induction n) (simp_all add: divide_counts_def)

lemma sorted_nth_le: "sorted xs \<Longrightarrow> i \<le> j \<Longrightarrow> j < length xs \<Longrightarrow> xs ! i \<le> xs ! j"
  by (simp add: sorted_iff_nth_mono)

lemma region_bounds:
  assumes v: "valid_csr mat" and s0: "0 \<le> start" and sn: "start \<le> int (n_rows mat)"
    and se: "start \<le> end"
  shows "nat start \<le> region_end mat end" "region_end mat end \<le> n_rows mat"
    "indptr mat ! nat start \<le> indptr mat ! region_end mat end"
    "indptr mat ! region_end mat end \<le> length (data mat)"
    "int (region_end mat end) = (if end + 1 > int (n_rows mat) then int (n_rows mat) else end + 1)"
proof -
  show a: "nat start \<le> region_end mat end" using s0 sn se by (simp add: region_end_def)
  show b: "region_end mat end \<le> n_rows mat" by (simp add: region_end_def)
  from v have len: "length (indptr mat) = Suc (n_rows mat)" and srt: "sorted (indptr mat)"
    and lst: "last (indptr mat) = length (data mat)" by (simp_all add: valid_csr_def)
  show "indptr mat ! nat start \<le> indptr mat ! region_end mat end"
    using a b len by (intro sorted_nth_le[OF srt]) simp_all
  have "indptr mat \<noteq> []" using len by auto
  then have "last (indptr mat) = indptr mat ! n_rows mat"
    using len by (simp add: last_conv_nth)
  moreover have "indptr mat ! region_end mat end \<le> indptr mat ! n_rows mat"
    using b len by (intro sorted_nth_le[OF srt]) simp_all
  ultimately show "indptr mat ! region_end mat end \<le> length (data mat)" using lst by simp
  show "int (region_end mat end) = (if end + 1 > int (n_rows mat) then int (n_rows mat) else end + 1)"
    using s0 se by (simp add: region_end_def min_def)
qed

lemma region_slices:
  assumes v: "valid_csr mat" and s0: "0 \<le> start" and sn: "start \<le> int (n_rows mat)"
    and se: "start \<le> end"
  shows "py_slice (data mat) (int (indptr mat ! nat start)) (int (indptr mat ! region_end mat end))
           = region_vals mat start end"
    "py_slice (indices mat) (int (indptr mat ! nat start)) (int (indptr mat ! region_end mat end))
           = region_cols mat start end"
    "py_slice (indptr mat) start (int (region_end mat end) + 1)
           = map (\<lambda>r. indptr mat ! r) [nat start ..< Suc (region_end mat end)]"
proof -
  note b = region_bounds[OF assms]
  from v have li: "length (indices mat) = length (data mat)"
    and len: "length (indptr mat) = Suc (n_rows mat)" by (simp_all add: valid_csr_def)
  show "py_slice (data mat) (int (indptr mat ! nat start)) (int (indptr mat ! region_end mat end))
           = region_vals mat start end"
    using b(3,4) by (simp add: py_slice_nth region_vals_def)
  show "py_slice (indices mat) (int (indptr mat ! nat start)) (int (indptr mat ! region_end mat end))
           = region_cols mat start end"
    using b(3,4) li by (simp add: py_slice_nth region_cols_def)
  have "py_slice (indptr mat) start (int (region_end mat end) + 1)
      = map (\<lambda>r. indptr mat ! r) [nat start ..< nat (int (region_end mat end) + 1)]"
    using s0 b(1,2) len by (intro py_slice_nth) auto
  also have "nat (int (region_end mat end) + 1) = Suc (region_end mat end)" by simp
  finally show "py_slice (indptr mat) start (int (region_end mat end) + 1)
           = map (\<lambda>r. indptr mat ! r) [nat start ..< Suc (region_end mat end)]" .
qed

lemma region_count_n_cpg:
  assumes v: "valid_csr mat" and s0: "0 \<le> start" and sn: "start \<le> int (n_rows mat)"
    and se: "start \<le> end"
  shows "count_n_cpg (map (\<lambda>v. int v - int (indptr mat ! nat start))
            (map (\<lambda>r. indptr mat ! r) [nat start ..< Suc (region_end mat end)]))
         = int (length (covered_rows mat start end))"
proof -
  note b = region_bounds[OF assms]
  from v have len: "length (indptr mat) = Suc (n_rows mat)" and srt: "sorted (indptr mat)"
    by (simp_all add: valid_csr_def)
  define g where "g r = int (indptr mat ! r) - int (indptr mat ! nat start)" for r
  define k where "k = region_end mat end - nat start"
  have e: "region_end mat end = nat start + k" using b(1) by (simp add: k_def)
  have mono: "\<And>r. nat start \<le> r \<Longrightarrow> r < nat start + k \<Longrightarrow> g r \<le> g (Suc r)"
  proof -
    fix r assume "nat start \<le> r" "r < nat start + k"
    then have "Suc r < length (indptr mat)" using e b(2) len by simp
    then have "indptr mat ! r \<le> indptr mat ! Suc r"
      by (intro sorted_nth_le[OF srt]) simp_all
    then show "g r \<le> g (Suc r)" by (simp add: g_def)
  qed
  have split: "[nat start ..< Suc (nat start + k)] = nat start # [Suc (nat start) ..< Suc (nat start + k)]"
    by (simp add: upt_conv_Cons del: upt_Suc)
  have g0: "g (nat start) = 0" by (simp add: g_def)
  have "fold count_n_cpg_step (map g [nat start ..< Suc (nat start + k)]) (0, 0)
      = fold count_n_cpg_step (map g [Suc (nat start) ..< Suc (nat start + k)]) (g (nat start), 0)"
    unfolding split by (simp add: g0 count_n_cpg_step_def del: upt_Suc)
  also have "\<dots> = (g (nat start + k),
      int (length (filter (\<lambda>r. g r < g (Suc r)) [nat start ..< nat start + k])))"
    by (rule count_n_cpg_fold[of "nat start" k g]) (rule mono)
  finally have cnt: "count_n_cpg (map g [nat start ..< Suc (nat start + k)]) =
      int (length (filter (\<lambda>r. g r < g (Suc r)) [nat start ..< nat start + k]))"
    by (simp add: count_n_cpg_def)
  have f: "(\<lambda>r. g r < g (Suc r)) = (\<lambda>r. indptr mat ! r < indptr mat ! Suc r)"
    by (auto simp: g_def)
  have m: "map (\<lambda>v. int v - int (indptr mat ! nat start))
            (map (\<lambda>r. indptr mat ! r) [nat start ..< Suc (nat start + k)])
      = map g [nat start ..< Suc (nat start + k)]"
    unfolding map_map by (rule map_cong) (simp_all add: g_def)
  show ?thesis unfolding covered_rows_def e m cnt f by (rule refl)
qed

lemma covered_rows_empty:
  assumes v: "valid_csr mat" and s0: "0 \<le> start" and sn: "start \<le> int (n_rows mat)"
    and se: "start \<le> end" and eq: "indptr mat ! nat start = indptr mat ! region_end mat end"
  shows "covered_rows mat start end = []"
proof -
  note b = region_bounds[OF v s0 sn se]
  from v have len: "length (indptr mat) = Suc (n_rows mat)" and srt: "sorted (indptr mat)"
    by (simp_all add: valid_csr_def)
  have "\<And>r. nat start \<le> r \<Longrightarrow> r < region_end mat end \<Longrightarrow> \<not> indptr mat ! r < indptr mat ! Suc r"
  proof -
    fix r assume r: "nat start \<le> r" "r < region_end mat end"
    have "indptr mat ! nat start \<le> indptr mat ! r"
      using r b(2) len by (intro sorted_nth_le[OF srt]) simp_all
    moreover have "indptr mat ! Suc r \<le> indptr mat ! region_end mat end"
      using r b(2) len by (intro sorted_nth_le[OF srt]) simp_all
    ultimately show "\<not> indptr mat ! r < indptr mat ! Suc r" using eq by simp
  qed
  then show ?thesis by (simp add: covered_rows_def filter_empty_conv)
qed

lemma region_loop_result:
  assumes v: "valid_csr mat" and s0: "0 \<le> start" and sn: "start \<le> int (n_rows mat)"
    and se: "start \<le> end"
  shows "region_loop (zip (region_cols mat start end) (region_vals mat start end))
           (replicate (n_cols mat) 0, replicate (n_cols mat) 0)
         = Inr (region_n_meth mat start end, region_n_total mat start end)"
proof -
  let ?cols = "region_cols mat start end"
  let ?es = "zip ?cols (region_vals mat start end)"
  let ?n = "n_cols mat"
  note b = region_bounds[OF assms]
  from v have li: "length (indices mat) = length (data mat)" by (simp add: valid_csr_def)
  have lens: "length ?cols = length (region_vals mat start end)"
    by (simp add: region_cols_def region_vals_def)
  have cols: "\<forall>c \<in> set ?cols. c < ?n"
  proof
    fix c assume "c \<in> set ?cols"
    then obtain k where k: "c = indices mat ! k" "k < indptr mat ! region_end mat end"
      by (auto simp: region_cols_def)
    with b(4) li have "k < length (indices mat)" by simp
    then have "indices mat ! k \<in> set (indices mat)" by simp
    with v k(1) show "c < ?n" by (simp add: valid_csr_def)
  qed
  have "\<forall>e \<in> set ?es. fst e < ?n"
    using cols by (auto dest: set_zip_leftD)
  from region_loop_ok[OF this, of "replicate ?n 0" "replicate ?n 0"]
  obtain nm nt where r: "region_loop ?es (replicate ?n 0, replicate ?n 0) = Inr (nm, nt)"
    and ln: "length nm = ?n" "length nt = ?n"
    and c: "\<forall>c < ?n. nt ! c = replicate ?n 0 ! c + int (length (filter (\<lambda>e. fst e = c) ?es)) \<and>
              nm ! c = replicate ?n 0 ! c +
                sum_list (map snd (filter (\<lambda>e. fst e = c \<and> snd e \<noteq> - 1) ?es))"
    by auto
  have cnt: "\<And>c. length (filter (\<lambda>e. fst e = c) ?es) = length (filter (\<lambda>x. x = c) ?cols)"
  proof -
    fix c
    have "length (filter (\<lambda>e. fst e = c) ?es) = length (filter (\<lambda>x. x = c) (map fst ?es))"
      by (simp add: filter_map comp_def)
    also have "map fst ?es = ?cols" using lens by simp
    finally show "length (filter (\<lambda>e. fst e = c) ?es) = length (filter (\<lambda>x. x = c) ?cols)" .
  qed
  have "nt = region_n_total mat start end"
    using ln c by (intro nth_equalityI) (simp_all add: region_n_total_def cnt)
  moreover have "nm = region_n_meth mat start end"
    using ln c by (intro nth_equalityI) (simp_all add: region_n_meth_def)
  ultimately show ?thesis using r by simp
qed

lemma calc_region_stats_valid:
  assumes v: "valid_csr mat" and s0: "0 \<le> start" and sn: "start \<le> int (n_rows mat)"
    and se: "start \<le> end"
  shows "calc_region_stats (data mat) (indices mat) (indptr mat) start end (n_cols mat)
          (int (n_rows mat))
        = Inr (region_n_meth mat start end, region_n_total mat start end,
               divide_counts (region_n_meth mat start end) (region_n_total mat start end),
               int (length (covered_rows mat start end)))"
proof -
  note b = region_bounds[OF assms]
  note sl = region_slices[OF assms]
  from v have len: "length (indptr mat) = Suc (n_rows mat)" by (simp add: valid_csr_def)
  have E: "(if int (n_rows mat) < end + 1 then int (n_rows mat) else end + 1)
      = int (region_end mat end)"
    using b(5) by simp
  have G1: "np_get (indptr mat) start = Inr (indptr mat ! nat start)"
    using s0 sn len by (intro np_get_nonneg) simp_all
  have G2: "np_get (indptr mat) (int (region_end mat end)) = Inr (indptr mat ! region_end mat end)"
    using np_get_nonneg[of "int (region_end mat end)" "indptr mat"] b(2) len by simp
  have N: "\<not> int (n_rows mat) < start" using sn by simp
  have lens: "length (region_cols mat start end) = length (region_vals mat start end)"
    by (simp add: region_cols_def region_vals_def)
  have RE: "region_entries (region_cols mat start end) (region_vals mat start end)
      = Inr (zip (region_cols mat start end) (region_vals mat start end))"
    by (simp add: region_entries_def lens)
  have unfolded: "calc_region_stats (data mat) (indices mat) (indptr mat) start end (n_cols mat)
          (int (n_rows mat)) =
     (if 0 < length (region_vals mat start end) then
        (case region_loop (zip (region_cols mat start end) (region_vals mat start end))
                (replicate (n_cols mat) 0, replicate (n_cols mat) 0) of
           Inl e \<Rightarrow> Inl e
         | Inr (n_meth', n_total') \<Rightarrow>
             Inr (n_meth', n_total', divide_counts n_meth' n_total',
                  njit_local (Some (count_n_cpg (map (\<lambda>v. int v - int (indptr mat ! nat start))
                     (map (\<lambda>r. indptr mat ! r) [nat start ..< Suc (region_end mat end)]))))))
      else Inr (replicate (n_cols mat) 0, replicate (n_cols mat) 0,
                divide_counts (replicate (n_cols mat) 0) (replicate (n_cols mat) 0),
                njit_local None))"
    unfolding calc_region_stats_def Let_def E G1 G2 sum.case sl RE
    using N by simp
  show ?thesis
  proof (cases "0 < length (region_vals mat start end)")
    case True
    then show ?thesis
      unfolding unfolded region_loop_result[OF assms] region_count_n_cpg[OF assms]
      by (simp add: njit_local_def)
  next
    case False
    then have empty: "region_vals mat start end = []" by simp
    with lens have cempty: "region_cols mat start end = []" by simp
    have "length (region_vals mat start end) =
        indptr mat ! region_end mat end - indptr mat ! nat start"
      by (simp add: region_vals_def)
    with empty b(3) have "indptr mat ! nat start = indptr mat ! region_end mat end"
      by simp
    then have cov: "covered_rows mat start end = []"
      by (rule covered_rows_empty[OF assms])
    have z1: "region_n_meth mat start end = replicate (n_cols mat) 0"
      by (simp add: region_n_meth_def empty cempty map_replicate_const)
    have z2: "region_n_total mat start end = replicate (n_cols mat) 0"
      by (simp add: region_n_total_def cempty map_replicate_const)
    show ?thesis
      unfolding unfolded using False by (simp add: z1 z2 cov njit_local_def)
  qed
qed

lemma region_empty_zero:
  assumes v: "valid_csr mat" and s0: "0 \<le> start" and sn: "start \<le> int (n_rows mat)"
    and se: "start \<le> end" and empty: "region_vals mat start end = []"
  shows "region_n_meth mat start end = replicate (n_cols mat) 0"
    "region_n_total mat start end = replicate (n_cols mat) 0"
    "covered_rows mat start end = []"
proof -
  note b = region_bounds[OF v s0 sn se]
  have "length (region_cols mat start end) = length (region_vals mat start end)"
    by (simp add: region_cols_def region_vals_def)
  with empty have cempty: "region_cols mat start end = []" by simp
  show "region_n_meth mat start end = replicate (n_cols mat) 0"
    by (simp add: region_n_meth_def empty cempty map_replicate_const)
  show "region_n_total mat start end = replicate (n_cols mat) 0"
    by (simp add: region_n_total_def cempty map_replicate_const)
  have "length (region_vals mat start end) =
      indptr mat ! region_end mat end - indptr mat ! nat start"
    by (simp add: region_vals_def)
  with empty b(3) have "indptr mat ! nat start = indptr mat ! region_end mat end"
    by simp
  then show "covered_rows mat start end = []"
    by (rule covered_rows_empty[OF v s0 sn se])
qed

lemma three_cell_chrom_valid: "valid_csr three_cell_chrom"
  by (simp add: valid_csr_def three_cell_chrom_def)

text \<open>
  Claim C6. \<^verbatim>\<open>_calc_region_stats\<close> returns a result for every interval with
  \<open>0 \<le> start \<le> end\<close> on a well-formed store. If \<open>start\<close> exceeds the chromosome length,
  all counts are zero, all fractions NaN and the covered-position count 0. Otherwise
  \<open>end + 1\<close> is clipped to the chromosome length, the counts are those of the entries
  between the row offsets at \<open>start\<close> and at the clipped \<open>end + 1\<close>, and the
  covered-position count is the number of rows of the region with at least one stored
  entry; for a region without entries this count is 0.
\<close>

theorem calc_region_stats_total_and_covered_count:
  "(int (n_rows mat) < start \<longrightarrow>
      calc_region_stats (data mat) (indices mat) (indptr mat) start end (n_cols mat)
          (int (n_rows mat))
        = Inr (replicate (n_cols mat) 0, replicate (n_cols mat) 0,
               replicate (n_cols mat) NaN, 0))
   \<and> (valid_csr mat \<and> 0 \<le> start \<and> start \<le> int (n_rows mat) \<and> start \<le> end \<longrightarrow>
        calc_region_stats (data mat) (indices mat) (indptr mat) start end (n_cols mat)
          (int (n_rows mat))
        = Inr (region_n_meth mat start end, region_n_total mat start end,
               divide_counts (region_n_meth mat start end) (region_n_total mat start end),
               int (length (covered_rows mat start end))))
   \<and> (valid_csr mat \<and> 0 \<le> start \<and> start \<le> int (n_rows mat) \<and> start \<le> end \<and>
        region_vals mat start end = [] \<longrightarrow>
        calc_region_stats (data mat) (indices mat) (indptr mat) start end (n_cols mat)
          (int (n_rows mat))
        = Inr (replicate (n_cols mat) 0, replicate (n_cols mat) 0,
               replicate (n_cols mat) NaN, 0))"
proof (intro conjI impI)
  assume "int (n_rows mat) < start"
  then show "calc_region_stats (data mat) (indices mat) (indptr mat) start end (n_cols mat)
          (int (n_rows mat))
        = Inr (replicate (n_cols mat) 0, replicate (n_cols mat) 0, replicate (n_cols mat) NaN, 0)"
    by (simp add: calc_region_stats_def Let_def divide_counts_zeros njit_local_def)
next
  assume a: "valid_csr mat \<and> 0 \<le> start \<and> start \<le> int (n_rows mat) \<and> start \<le> end"
  then have v: "valid_csr mat" and s0: "0 \<le> start" and sn: "start \<le> int (n_rows mat)"
    and se: "start \<le> end" by blast+
  show "calc_region_stats (data mat) (indices mat) (indptr mat) start end (n_cols mat)
          (int (n_rows mat))
        = Inr (region_n_meth mat start end, region_n_total mat start end,
               divide_counts (region_n_meth mat start end) (region_n_total mat start end),
               int (length (covered_rows mat start end)))"
    by (rule calc_region_stats_valid[OF v s0 sn se])
next
  assume a: "valid_csr mat \<and> 0 \<le> start \<and> start \<le> int (n_rows mat) \<and> start \<le> end \<and>
        region_vals mat start end = []"
  then have v: "valid_csr mat" and s0: "0 \<le> start" and sn: "start \<le> int (n_rows mat)"
    and se: "start \<le> end" and empty: "region_vals mat start end = []" by blast+
  show "calc_region_stats (data mat) (indices mat) (indptr mat) start end (n_cols mat)
          (int (n_rows mat))
        = Inr (replicate (n_cols mat) 0, replicate (n_cols mat) 0, replicate (n_cols mat) NaN, 0)"
    unfolding calc_region_stats_valid[OF v s0 sn se] region_empty_zero[OF v s0 sn se empty]
    by (simp add: divide_counts_zeros)
qed

theorem calc_region_stats_total_and_covered_count_witness:
  "valid_csr three_cell_chrom \<and> (0 :: int) \<le> 5 \<and> 5 \<le> int (n_rows three_cell_chrom) \<and>
   (5 :: int) \<le> 25 \<and>
   calc_region_stats (data three_cell_chrom) (indices three_cell_chrom) (indptr three_cell_chrom)
     5 25 (n_cols three_cell_chrom) (int (n_rows three_cell_chrom))
     = Inr ([2, 0, 0], [2, 1, 0], [Fin 1, Fin 0, NaN], 2) \<and>
   int (n_rows three_cell_chrom) < 22 \<and>
   calc_region_stats (data three_cell_chrom) (indices three_cell_chrom) (indptr three_cell_chrom)
     22 25 (n_cols three_cell_chrom) (int (n_rows three_cell_chrom))
     = Inr ([0, 0, 0], [0, 0, 0], [NaN, NaN, NaN], 0) \<and>
   (0 :: int) \<le> 11 \<and> 11 \<le> int (n_rows three_cell_chrom) \<and> (11 :: int) \<le> 15 \<and>
   region_vals three_cell_chrom 11 15 = [] \<and>
   calc_region_stats (data three_cell_chrom) (indices three_cell_chrom) (indptr three_cell_chrom)
     11 15 (n_cols three_cell_chrom) (int (n_rows three_cell_chrom))
     = Inr ([0, 0, 0], [0, 0, 0], [NaN, NaN, NaN], 0)"
proof -
  let ?m = three_cell_chrom
  have n: "n_rows ?m = 21" "n_cols ?m = 3" by (simp_all add: three_cell_chrom_def)
  have nm: "region_n_meth ?m 5 25 = [2, 0, 0]" and nt: "region_n_total ?m 5 25 = [2, 1, 0]"
    by code_simp+
  have cov: "covered_rows ?m 5 25 = [10, 20]"
    by code_simp
  have empty: "region_vals ?m 11 15 = []"
    by code_simp
  have z: "region_n_meth ?m 11 15 = [0, 0, 0]" "region_n_total ?m 11 15 = [0, 0, 0]"
    "covered_rows ?m 11 15 = []"
    by code_simp+
  have fz: "divide_counts [0, 0, 0] [0, 0, 0] = [NaN, NaN, NaN]"
    by (simp add: divide_counts_def)
  have fr: "divide_counts [2, 0, 0] [2, 1, 0] = [Fin 1, Fin 0, NaN]"
    by (simp add: divide_counts_def)
  have r3: "replicate 3 (0 :: int) = [0, 0, 0]" "replicate 3 NaN = [NaN, NaN, NaN]"
    by (simp_all add: numeral_3_eq_3)
  show ?thesis
    using calc_region_stats_total_and_covered_count [of ?m 5 25]
      calc_region_stats_total_and_covered_count [of ?m 22 25]
      calc_region_stats_total_and_covered_count [of ?m 11 15]
    by (simp add: three_cell_chrom_valid n nm nt cov fr empty r3 z fz)
qed

section \<open>Properties of the shrunken residuals\<close>

lemma rows_from_zero:
  "Suc j < length ds \<Longrightarrow> rows_from ds j 0 = rows_from ds (Suc j) (ds ! Suc j)"
  by (simp add: rows_from_def upt_conv_Cons del: upt_Suc)

lemma rows_from_zero_end:
  "\<not> Suc j < length ds \<Longrightarrow> rows_from ds j 0 = []"
  by (simp add: rows_from_def)

lemma rows_from_pos:
  "0 < n \<Longrightarrow> rows_from ds j n = j # rows_from ds j (n - 1)"
proof -
  assume "0 < n"
  then have "nat n = Suc (nat (n - 1))" by simp
  then show ?thesis by (simp add: rows_from_def)
qed

lemma skip_empty_rows:
  assumes "0 \<le> n" "rows_from ds j n \<noteq> []" "j < length ds"
    and "\<forall>d \<in> set ds. 0 \<le> d"
  shows "\<exists>j' n'. skip_empty ds j n = Inr (j', n') \<and> 0 < n' \<and> j' < length ds \<and>
           rows_from ds j n = j' # rows_from ds j' (n' - 1)"
  using assms
proof (induction ds j n rule: skip_empty.induct)
  case (1 ds j n)
  show ?case
  proof (cases "n = 0")
    case False
    with "1.prems"(1) have "0 < n" by simp
    with False "1.prems"(3) show ?thesis
      by (simp add: rows_from_pos)
  next
    case True
    with "1.prems"(2) have lt: "Suc j < length ds"
      using rows_from_zero_end by blast
    have eq: "rows_from ds j n = rows_from ds (Suc j) (ds ! Suc j)"
      using True lt by (simp add: rows_from_zero)
    have nonneg: "0 \<le> ds ! Suc j" using lt "1.prems"(4) by simp
    have "\<exists>j' n'. skip_empty ds (Suc j) (ds ! Suc j) = Inr (j', n') \<and> 0 < n' \<and> j' < length ds \<and>
           rows_from ds (Suc j) (ds ! Suc j) = j' # rows_from ds j' (n' - 1)"
      using "1.IH"[OF True lt nonneg] "1.prems"(2,4) eq lt by simp
    then show ?thesis
      using True lt eq by (subst skip_empty.simps) simp
  qed
qed

lemma resid_loop_run:
  assumes "\<forall>d \<in> set ds. 0 \<le> d" "0 \<le> nobs_cpg s" "cpg_idx s < length ds"
    and "length es = length (rows_from ds (cpg_idx s) (nobs_cpg s))"
    and "\<forall>e \<in> set es. fst e < n" "length (smooth_sums s) = n" "length (meth_sums s) = n"
    and "\<forall>off \<in> set (rows_from ds (cpg_idx s) (nobs_cpg s)). smoothed (start + int off) \<noteq> None"
  shows "\<exists>s'. resid_loop ds smoothed start es s = Inr s' \<and>
           length (smooth_sums s') = n \<and> length (meth_sums s') = n \<and>
           (\<forall>c < n.
              smooth_sums s' ! c =
                fold (\<lambda>x acc. fadd acc x)
                  (map (\<lambda>p. track_value smoothed (start + int (fst p)))
                     (filter (\<lambda>p. fst (snd p) = c)
                        (zip (rows_from ds (cpg_idx s) (nobs_cpg s)) es)))
                  (smooth_sums s ! c) \<and>
              meth_sums s' ! c =
                meth_sums s ! c +
                sum_list (map snd (filter (\<lambda>e. fst e = c \<and> snd e \<noteq> - 1) es)))"
  using assms
proof (induction es arbitrary: s)
  case Nil
  then show ?case by simp
next
  case (Cons e es)
  obtain cell_idx v where e: "e = (cell_idx, v)" by (cases e)
  let ?rows = "rows_from ds (cpg_idx s) (nobs_cpg s)"
  from Cons.prems(4) have ne: "?rows \<noteq> []" by auto
  from skip_empty_rows[OF Cons.prems(2) ne Cons.prems(3) Cons.prems(1)]
  obtain j' n' where sk: "skip_empty ds (cpg_idx s) (nobs_cpg s) = Inr (j', n')"
    and n': "0 < n'" and j': "j' < length ds"
    and rows: "?rows = j' # rows_from ds j' (n' - 1)"
    by blast
  from Cons.prems(5) e have ci: "cell_idx < n" by simp
  from Cons.prems(8) rows have "smoothed (start + int j') \<noteq> None" by simp
  then obtain sv where sv: "smoothed (start + int j') = Some sv" by auto
  let ?s1 = "s\<lparr>cpg_idx := j', nobs_cpg := n' - 1,
               smooth_sums := (smooth_sums s)[cell_idx := fadd (smooth_sums s ! cell_idx) sv]\<rparr>"
  let ?s2 = "if v = - 1 then ?s1
             else ?s1\<lparr>meth_sums := (meth_sums ?s1)[cell_idx := meth_sums ?s1 ! cell_idx + v]\<rparr>"
  have step: "resid_loop ds smoothed start (e # es) s = resid_loop ds smoothed start es ?s2"
    using sk ci sv Cons.prems(6) by (simp add: e Let_def)
  have c2: "cpg_idx ?s2 = j'" "nobs_cpg ?s2 = n' - 1" by simp_all
  have p1: "0 \<le> nobs_cpg ?s2" using n' by simp
  have p2: "cpg_idx ?s2 < length ds" using j' by simp
  have p3: "length es = length (rows_from ds (cpg_idx ?s2) (nobs_cpg ?s2))"
    using Cons.prems(4) rows unfolding c2 by simp
  have p4: "\<forall>e \<in> set es. fst e < n" using Cons.prems(5) by simp
  have p5: "length (smooth_sums ?s2) = n" "length (meth_sums ?s2) = n"
    using Cons.prems(6,7) by simp_all
  have p6: "\<forall>off \<in> set (rows_from ds (cpg_idx ?s2) (nobs_cpg ?s2)). smoothed (start + int off) \<noteq> None"
    using Cons.prems(8) rows unfolding c2 by simp
  from Cons.IH[OF Cons.prems(1) p1 p2 p3 p4 p5 p6]
  obtain s' where r: "resid_loop ds smoothed start es ?s2 = Inr s'"
    and l: "length (smooth_sums s') = n" "length (meth_sums s') = n"
    and c: "\<forall>c < n.
              smooth_sums s' ! c =
                fold (\<lambda>x acc. fadd acc x)
                  (map (\<lambda>p. track_value smoothed (start + int (fst p)))
                     (filter (\<lambda>p. fst (snd p) = c)
                        (zip (rows_from ds (cpg_idx ?s2) (nobs_cpg ?s2)) es)))
                  (smooth_sums ?s2 ! c) \<and>
              meth_sums s' ! c =
                meth_sums ?s2 ! c +
                sum_list (map snd (filter (\<lambda>e. fst e = c \<and> snd e \<noteq> - 1) es))"
    by blast
  have tv: "track_value smoothed (start + int j') = sv" by (simp add: track_value_def sv)
  have "\<forall>c < n.
              smooth_sums s' ! c =
                fold (\<lambda>x acc. fadd acc x)
                  (map (\<lambda>p. track_value smoothed (start + int (fst p)))
                     (filter (\<lambda>p. fst (snd p) = c) (zip ?rows (e # es))))
                  (smooth_sums s ! c) \<and>
              meth_sums s' ! c =
                meth_sums s ! c +
                sum_list (map snd (filter (\<lambda>e. fst e = c \<and> snd e \<noteq> - 1) (e # es)))"
  proof (intro allI impI)
    fix c assume cn: "c < n"
    from c cn have h1: "smooth_sums s' ! c =
                fold (\<lambda>x acc. fadd acc x)
                  (map (\<lambda>p. track_value smoothed (start + int (fst p)))
                     (filter (\<lambda>p. fst (snd p) = c) (zip (rows_from ds j' (n' - 1)) es)))
                  (smooth_sums ?s2 ! c)"
      and h2: "meth_sums s' ! c = meth_sums ?s2 ! c +
                sum_list (map snd (filter (\<lambda>e. fst e = c \<and> snd e \<noteq> - 1) es))"
      unfolding c2 by blast+
    have a1: "smooth_sums ?s2 ! c =
        (if c = cell_idx then fadd (smooth_sums s ! c) sv else smooth_sums s ! c)"
      using cn ci Cons.prems(6) by (simp add: nth_list_update)
    have a2: "meth_sums ?s2 ! c =
        (if c = cell_idx \<and> v \<noteq> - 1 then meth_sums s ! c + v else meth_sums s ! c)"
      using cn ci Cons.prems(7) by (simp add: nth_list_update)
    show "smooth_sums s' ! c =
                fold (\<lambda>x acc. fadd acc x)
                  (map (\<lambda>p. track_value smoothed (start + int (fst p)))
                     (filter (\<lambda>p. fst (snd p) = c) (zip ?rows (e # es))))
                  (smooth_sums s ! c) \<and>
              meth_sums s' ! c =
                meth_sums s ! c +
                sum_list (map snd (filter (\<lambda>e. fst e = c \<and> snd e \<noteq> - 1) (e # es)))"
      unfolding rows h1 h2 a1 a2 by (simp add: e tv)
  qed
  with step r l show ?case by simp
qed

lemma np_diff_map:
  fixes g :: "nat \<Rightarrow> int"
  shows "np_diff (map g [s ..< Suc (s + k)]) = map (\<lambda>r. g (Suc r) - g r) [s ..< s + k]"
proof (rule nth_equalityI)
  show "length (np_diff (map g [s ..< Suc (s + k)])) = length (map (\<lambda>r. g (Suc r) - g r) [s ..< s + k])"
    by (simp add: np_diff_def)
next
  fix i assume "i < length (np_diff (map g [s ..< Suc (s + k)]))"
  then have i: "i < k" by (simp add: np_diff_def)
  have t: "tl (map g [s ..< Suc (s + k)]) ! i = g (Suc (s + i))"
    using i by (simp add: nth_tl nth_append del: upt_Suc)
  have h: "map g [s ..< Suc (s + k)] ! i = g (s + i)"
    using i by (simp add: nth_append del: upt_Suc)
  show "np_diff (map g [s ..< Suc (s + k)]) ! i = map (\<lambda>r. g (Suc r) - g r) [s ..< s + k] ! i"
    using i t h by (simp add: np_diff_def del: upt_Suc)
qed

lemma length_rows_telescope:
  fixes f :: "nat \<Rightarrow> nat"
  assumes "\<And>r. s \<le> r \<Longrightarrow> r < s + k \<Longrightarrow> f r \<le> f (Suc r)"
  shows "length (concat (map (\<lambda>r. replicate (f (Suc r) - f r) r) [s ..< s + k])) = f (s + k) - f s"
  using assms
proof (induction k)
  case 0
  then show ?case by simp
next
  case (Suc k)
  have ih: "length (concat (map (\<lambda>r. replicate (f (Suc r) - f r) r) [s ..< s + k])) = f (s + k) - f s"
    using Suc.prems by (intro Suc.IH) simp
  have mono: "f s \<le> f (s + k)"
  proof -
    have "\<And>j. j \<le> k \<Longrightarrow> f s \<le> f (s + j)"
    proof -
      fix j show "j \<le> k \<Longrightarrow> f s \<le> f (s + j)"
      proof (induction j)
        case 0 then show ?case by simp
      next
        case (Suc j)
        then have "f (s + j) \<le> f (Suc (s + j))" using Suc.prems by (intro \<open>\<And>r. s \<le> r \<Longrightarrow> r < s + Suc k \<Longrightarrow> f r \<le> f (Suc r)\<close>) simp_all
        with Suc show ?case by simp
      qed
    qed
    then show ?thesis by simp
  qed
  have le: "f (s + k) \<le> f (Suc (s + k))" using Suc.prems by simp
  show ?case using ih mono le by simp
qed

lemma fold_max_ge_init: "(a :: nat) \<le> fold max xs a"
proof (induction xs arbitrary: a)
  case Nil show ?case by simp
next
  case (Cons y ys)
  have "max y a \<le> fold max ys (max y a)" by (rule Cons.IH)
  then show ?case by simp
qed

lemma fold_max_ge_elem: "x \<in> set xs \<Longrightarrow> (x :: nat) \<le> fold max xs a"
proof (induction xs arbitrary: a)
  case Nil then show ?case by simp
next
  case (Cons y ys)
  show ?case
  proof (cases "x = y")
    case True
    have "max y a \<le> fold max ys (max y a)" by (rule fold_max_ge_init)
    with True show ?thesis by simp
  next
    case False
    with Cons.prems have "x \<in> set ys" by simp
    from Cons.IH[OF this] show ?thesis by simp
  qed
qed

lemma fold_max_less: "(a :: nat) < n \<Longrightarrow> \<forall>x \<in> set xs. x < n \<Longrightarrow> fold max xs a < n"
  by (induction xs arbitrary: a) simp_all

lemma bincount_padded:
  assumes "xs \<noteq> []" "\<forall>x \<in> set xs. x < n"
  shows "length (np_bincount xs) \<le> n"
    "np_bincount xs @ replicate (n - length (np_bincount xs)) 0 =
       map (\<lambda>c. int (length (filter (\<lambda>x. x = c) xs))) [0..<n]"
proof -
  let ?m = "fold max xs 0"
  from assms have n0: "0 < n" by (cases xs) auto
  have m: "?m < n" using fold_max_less[OF n0 assms(2)] .
  have len: "length (np_bincount xs) = Suc ?m" using assms(1) by (simp add: np_bincount_def)
  show "length (np_bincount xs) \<le> n" using len m by simp
  show "np_bincount xs @ replicate (n - length (np_bincount xs)) 0 =
       map (\<lambda>c. int (length (filter (\<lambda>x. x = c) xs))) [0..<n]"
  proof (rule nth_equalityI)
    show "length (np_bincount xs @ replicate (n - length (np_bincount xs)) 0) =
        length (map (\<lambda>c. int (length (filter (\<lambda>x. x = c) xs))) [0..<n])"
      using len m by simp
  next
    fix i assume "i < length (np_bincount xs @ replicate (n - length (np_bincount xs)) 0)"
    then have i: "i < n" using len m by simp
    show "(np_bincount xs @ replicate (n - length (np_bincount xs)) 0) ! i =
        map (\<lambda>c. int (length (filter (\<lambda>x. x = c) xs))) [0..<n] ! i"
    proof (cases "i < Suc ?m")
      case True
      then have "np_bincount xs ! i = int (length (filter (\<lambda>x. x = i) xs))"
        using assms(1) unfolding np_bincount_def by (simp del: upt_Suc)
      with True len i show ?thesis by (simp add: nth_append)
    next
      case False
      then have "\<forall>x \<in> set xs. x \<noteq> i" using fold_max_ge_elem[of _ xs 0] by fastforce
      then have "filter (\<lambda>x. x = i) xs = []" by (simp add: filter_empty_conv)
      with False len i show ?thesis by (simp add: nth_append)
    qed
  qed
qed

lemma rows_from_all:
  "ds \<noteq> [] \<Longrightarrow>
   rows_from ds 0 (ds ! 0) = concat (map (\<lambda>i. replicate (nat (ds ! i)) i) [0 ..< length ds])"
  by (simp add: rows_from_def upt_conv_Cons del: upt_Suc)

lemma shift_rows:
  "map (\<lambda>off. s + off) (concat (map (\<lambda>i. replicate (h i) i) [0 ..< k])) =
   concat (map (\<lambda>r. replicate (h (r - s)) r) [s ..< s + k])"
proof -
  have "map (\<lambda>off. s + off) (concat (map (\<lambda>i. replicate (h i) i) [0 ..< k])) =
      concat (map (\<lambda>i. replicate (h i) (s + i)) [0 ..< k])"
    by (simp add: map_concat comp_def)
  also have "\<dots> = concat (map (\<lambda>r. replicate (h (r - s)) r) (map (\<lambda>i. i + s) [0 ..< k]))"
    by (simp add: comp_def add.commute)
  also have "map (\<lambda>i. i + s) [0 ..< k] = [s ..< k + s]" by (rule map_add_upt)
  finally show ?thesis by (simp add: add.commute)
qed

lemma smooth_terms_shift:
  assumes "length offs = length cols" "length cols = length vals"
  shows "map (\<lambda>p. F (int s + int (fst p))) (filter (\<lambda>p. fst (snd p) = c) (zip offs (zip cols vals))) =
         map (\<lambda>p. F (int (fst p))) (filter (\<lambda>p. snd p = c) (zip (map (\<lambda>off. s + off) offs) cols))"
  using assms by (induction offs cols vals rule: list_induct3) simp_all

lemma calc_mean_shrunken_residuals_valid:
  assumes v: "valid_csr mat" and s0: "0 \<le> start" and sn: "start \<le> int (n_rows mat)"
    and se: "start \<le> end"
    and tr: "\<forall>r \<in> set (covered_rows mat start end). smoothed (int r) \<noteq> None"
  shows "calc_mean_shrunken_residuals (data mat) (indices mat) (indptr mat) start end smoothed
           (n_cols mat) (int (n_rows mat))
         = Inr (region_residuals smoothed mat start end)"
proof -
  note b = region_bounds[OF v s0 sn se]
  note sl = region_slices[OF v s0 sn se]
  let ?n = "n_cols mat"
  let ?cols = "region_cols mat start end"
  let ?vals = "region_vals mat start end"
  let ?lo = "indptr mat ! nat start"
  let ?RI = "map (\<lambda>v. int v - int ?lo)
               (map (\<lambda>r. indptr mat ! r) [nat start ..< Suc (region_end mat end)])"
  from v have len: "length (indptr mat) = Suc (n_rows mat)" and srt: "sorted (indptr mat)"
    and li: "length (indices mat) = length (data mat)"
    by (simp_all add: valid_csr_def)
  have E: "(if int (n_rows mat) < end + 1 then int (n_rows mat) else end + 1)
      = int (region_end mat end)"
    using b(5) by simp
  have G1: "np_get (indptr mat) start = Inr ?lo"
    using s0 sn len by (intro np_get_nonneg) simp_all
  have G2: "np_get (indptr mat) (int (region_end mat end)) = Inr (indptr mat ! region_end mat end)"
    using np_get_nonneg[of "int (region_end mat end)" "indptr mat"] b(2) len by simp
  have N: "\<not> int (n_rows mat) < start" using sn by simp
  have lens: "length ?cols = length ?vals"
    by (simp add: region_cols_def region_vals_def)
  have RE: "region_entries ?cols ?vals = Inr (zip ?cols ?vals)"
    by (simp add: region_entries_def lens)
  have unfolded: "calc_mean_shrunken_residuals (data mat) (indices mat) (indptr mat) start end
          smoothed ?n (int (n_rows mat)) =
     (if length ?vals = 0 then Inr (replicate ?n NaN)
      else if ?n < length (np_bincount ?cols) then Inl ValueError
      else (case np_get (np_diff ?RI) 0 of
              Inl e \<Rightarrow> Inl e
            | Inr first_nobs \<Rightarrow>
                (case resid_loop (np_diff ?RI) smoothed start (zip ?cols ?vals)
                        \<lparr>cpg_idx = 0, nobs_cpg = first_nobs,
                         smooth_sums = replicate ?n (Fin 0),
                         meth_sums = replicate ?n 0\<rparr> of
                   Inl e \<Rightarrow> Inl e
                 | Inr s \<Rightarrow>
                     Inr (shrink (np_bincount ?cols @ replicate (?n - length (np_bincount ?cols)) 0)
                            (meth_sums s) (smooth_sums s) ?n 1))))"
    unfolding calc_mean_shrunken_residuals_def Let_def E G1 G2 sum.case sl RE
    using N by simp
  show ?thesis
  proof (cases "?vals = []")
    case True
    note z = region_empty_zero[OF v s0 sn se True]
    have "region_residuals smoothed mat start end = map (\<lambda>c. NaN) [0 ..< ?n]"
      unfolding region_residuals_def by (rule map_cong) (simp_all add: z(2))
    then have "region_residuals smoothed mat start end = replicate ?n NaN"
      by (simp add: map_replicate_const)
    with True show ?thesis unfolding unfolded by simp
  next
    case False
    with lens have cne: "?cols \<noteq> []" by auto
    define k where "k = region_end mat end - nat start"
    have e: "region_end mat end = nat start + k" using b(1) by (simp add: k_def)
    define f where "f r = indptr mat ! r" for r
    have mono: "\<And>r. nat start \<le> r \<Longrightarrow> r < nat start + k \<Longrightarrow> f r \<le> f (Suc r)"
    proof -
      fix r assume "nat start \<le> r" "r < nat start + k"
      then have "Suc r < length (indptr mat)" using e b(2) len by simp
      then show "f r \<le> f (Suc r)"
        unfolding f_def by (intro sorted_nth_le[OF srt]) simp_all
    qed
    define ds where "ds = map (\<lambda>r. int (f (Suc r)) - int (f r)) [nat start ..< nat start + k]"
    have RI: "?RI = map (\<lambda>r. int (f r) - int ?lo) [nat start ..< Suc (nat start + k)]"
      unfolding e map_map by (rule map_cong) (simp_all add: f_def)
    have ds: "np_diff ?RI = ds"
      unfolding RI np_diff_map ds_def by simp
    have lvals: "length ?vals = f (nat start + k) - f (nat start)"
      by (simp add: region_vals_def e f_def)
    have kpos: "0 < k"
    proof (rule ccontr)
      assume "\<not> 0 < k"
      then have "k = 0" by simp
      with lvals False show False by simp
    qed
    have dsne: "ds \<noteq> []" and lds: "length ds = k" using kpos by (simp_all add: ds_def)
    have dsnth: "\<And>i. i < k \<Longrightarrow> ds ! i = int (f (Suc (nat start + i))) - int (f (nat start + i))"
      by (simp add: ds_def)
    have dsnat: "\<And>i. i < k \<Longrightarrow> nat (ds ! i) = f (Suc (nat start + i)) - f (nat start + i)"
      using dsnth by simp
    have dspos: "\<forall>d \<in> set ds. 0 \<le> d"
    proof
      fix d assume "d \<in> set ds"
      then obtain r where "nat start \<le> r" "r < nat start + k" "d = int (f (Suc r)) - int (f r)"
        by (auto simp: ds_def)
      with mono[of r] show "0 \<le> d" by simp
    qed
    have G3: "np_get ds 0 = Inr (ds ! 0)" using dsne by (simp add: np_get_def)
    let ?offs = "rows_from ds 0 (ds ! 0)"
    have offs: "?offs = concat (map (\<lambda>i. replicate (f (Suc (nat start + i)) - f (nat start + i)) i) [0 ..< k])"
    proof -
      have "?offs = concat (map (\<lambda>i. replicate (nat (ds ! i)) i) [0 ..< k])"
        using rows_from_all[OF dsne] lds by simp
      also have "map (\<lambda>i. replicate (nat (ds ! i)) i) [0 ..< k] =
          map (\<lambda>i. replicate (f (Suc (nat start + i)) - f (nat start + i)) i) [0 ..< k]"
        by (rule map_cong) (simp_all add: dsnat)
      finally show ?thesis .
    qed
    have er: "entry_rows mat start end = map (\<lambda>off. nat start + off) ?offs"
    proof -
      have "map (\<lambda>off. nat start + off) ?offs =
          concat (map (\<lambda>r. replicate (f (Suc (nat start + (r - nat start))) - f (nat start + (r - nat start))) r)
                    [nat start ..< nat start + k])"
        unfolding offs by (rule shift_rows)
      also have "map (\<lambda>r. replicate (f (Suc (nat start + (r - nat start))) - f (nat start + (r - nat start))) r)
                    [nat start ..< nat start + k] =
          map (\<lambda>r. replicate (f (Suc r) - f r) r) [nat start ..< nat start + k]"
        by (rule map_cong) simp_all
      finally show ?thesis by (simp add: entry_rows_def e f_def)
    qed
    have ler: "length (entry_rows mat start end) = f (nat start + k) - f (nat start)"
      unfolding entry_rows_def e using length_rows_telescope[of "nat start" k f, OF mono]
      by (simp add: f_def)
    have loffs: "length ?offs = length ?vals"
      using ler er lvals by simp
    have p4: "length (zip ?cols ?vals) = length (rows_from ds 0 (ds ! 0))"
      using loffs lens by simp
    have colsn: "\<forall>c \<in> set ?cols. c < ?n"
    proof
      fix c assume "c \<in> set ?cols"
      then obtain j where j: "c = indices mat ! j" "j < indptr mat ! region_end mat end"
        by (auto simp: region_cols_def)
      with b(4) li have "j < length (indices mat)" by simp
      then have "indices mat ! j \<in> set (indices mat)" by simp
      with v j(1) show "c < ?n" by (simp add: valid_csr_def)
    qed
    have p5: "\<forall>e \<in> set (zip ?cols ?vals). fst e < ?n"
      using colsn by (auto dest: set_zip_leftD)
    have p8: "\<forall>off \<in> set ?offs. smoothed (start + int off) \<noteq> None"
    proof
      fix off assume "off \<in> set ?offs"
      then have "nat start + off \<in> set (entry_rows mat start end)" unfolding er by simp
      then have "nat start + off \<in> set (covered_rows mat start end)"
        by (auto simp: entry_rows_def covered_rows_def)
      with tr have "smoothed (int (nat start + off)) \<noteq> None" by blast
      moreover have "int (nat start + off) = start + int off" using s0 by simp
      ultimately show "smoothed (start + int off) \<noteq> None" by simp
    qed
    let ?s0 = "\<lparr>cpg_idx = 0, nobs_cpg = ds ! 0, smooth_sums = replicate ?n (Fin 0),
                meth_sums = replicate ?n 0\<rparr>"
    have "\<exists>s'. resid_loop ds smoothed start (zip ?cols ?vals) ?s0 = Inr s' \<and>
           length (smooth_sums s') = ?n \<and> length (meth_sums s') = ?n \<and>
           (\<forall>c < ?n.
              smooth_sums s' ! c =
                fold (\<lambda>x acc. fadd acc x)
                  (map (\<lambda>p. track_value smoothed (start + int (fst p)))
                     (filter (\<lambda>p. fst (snd p) = c)
                        (zip (rows_from ds (cpg_idx ?s0) (nobs_cpg ?s0)) (zip ?cols ?vals))))
                  (smooth_sums ?s0 ! c) \<and>
              meth_sums s' ! c =
                meth_sums ?s0 ! c +
                sum_list (map snd (filter (\<lambda>e. fst e = c \<and> snd e \<noteq> - 1) (zip ?cols ?vals))))"
      using dspos dsne lds kpos p4 p5 p8 dsnth[of 0] mono[of "nat start"]
      by (intro resid_loop_run) simp_all
    then obtain s' where r: "resid_loop ds smoothed start (zip ?cols ?vals) ?s0 = Inr s'"
      and l: "length (smooth_sums s') = ?n" "length (meth_sums s') = ?n"
      and ss: "\<And>c. c < ?n \<Longrightarrow> smooth_sums s' ! c =
                fsum (map (\<lambda>p. track_value smoothed (start + int (fst p)))
                     (filter (\<lambda>p. fst (snd p) = c) (zip ?offs (zip ?cols ?vals))))"
      and ms: "\<And>c. c < ?n \<Longrightarrow> meth_sums s' ! c =
                sum_list (map snd (filter (\<lambda>e. fst e = c \<and> snd e \<noteq> - 1) (zip ?cols ?vals)))"
      by (auto simp: fsum_def)
    have ss': "\<And>c. c < ?n \<Longrightarrow> smooth_sums s' ! c = cell_smooth_sum smoothed mat start end c"
    proof -
      fix c assume "c < ?n"
      have "start = int (nat start)" using s0 by simp
      then have "map (\<lambda>p. track_value smoothed (start + int (fst p)))
                     (filter (\<lambda>p. fst (snd p) = c) (zip ?offs (zip ?cols ?vals))) =
            map (\<lambda>p. track_value smoothed (int (nat start) + int (fst p)))
                     (filter (\<lambda>p. fst (snd p) = c) (zip ?offs (zip ?cols ?vals)))"
        by simp
      also have "\<dots> = map (\<lambda>p. track_value smoothed (int (fst p)))
                     (filter (\<lambda>p. snd p = c) (zip (map (\<lambda>off. nat start + off) ?offs) ?cols))"
        using loffs lens by (intro smooth_terms_shift) simp_all
      finally show "smooth_sums s' ! c = cell_smooth_sum smoothed mat start end c"
        using ss[OF \<open>c < ?n\<close>] by (simp add: cell_smooth_sum_def er)
    qed
    have nobs: "np_bincount ?cols @ replicate (?n - length (np_bincount ?cols)) 0 =
        region_n_total mat start end"
      and nle: "length (np_bincount ?cols) \<le> ?n"
      using bincount_padded[OF cne colsn] by (simp_all add: region_n_total_def)
    have sh: "shrink (region_n_total mat start end) (meth_sums s') (smooth_sums s') ?n 1 =
        region_residuals smoothed mat start end"
      unfolding shrink_def region_residuals_def
      by (rule map_cong) (simp_all add: ss' ms region_n_meth_def)
    show ?thesis
      unfolding unfolded ds G3 sum.case r nobs sh using False nle by simp
  qed
qed

text \<open>
  Claim C1. On a well-formed store, for an interval with \<open>0 \<le> start \<le> end\<close> and a
  smoothed track that has a value at every covered position of the interval,
  \<^verbatim>\<open>_calc_mean_shrunken_residuals\<close> returns, for each cell with at least one
  observation in the interval, the sum of its values other than -1 (its methylated
  calls) minus the sum of the smoothed-track values at the positions of its entries,
  divided by its number of observations plus 1, and NaN for each cell without an
  observation. When \<open>start\<close> exceeds the chromosome length every cell gets NaN.
\<close>

theorem calc_mean_shrunken_residuals_formula:
  "(valid_csr mat \<and> 0 \<le> start \<and> start \<le> int (n_rows mat) \<and> start \<le> end \<and>
    (\<forall>r \<in> set (covered_rows mat start end). smoothed_vals (int r) \<noteq> None) \<longrightarrow>
      calc_mean_shrunken_residuals (data mat) (indices mat) (indptr mat) start end smoothed_vals
          (n_cols mat) (int (n_rows mat))
        = Inr (region_residuals smoothed_vals mat start end) \<and>
      length (region_residuals smoothed_vals mat start end) = n_cols mat \<and>
      (\<forall>c < n_cols mat.
         region_residuals smoothed_vals mat start end ! c =
           (if region_n_total mat start end ! c > 0
            then fdiv (fsub (Fin (of_int (region_n_meth mat start end ! c)))
                            (cell_smooth_sum smoothed_vals mat start end c))
                      (Fin (of_int (region_n_total mat start end ! c + 1)))
            else NaN)))
   \<and> (int (n_rows mat) < start \<longrightarrow>
        calc_mean_shrunken_residuals (data mat) (indices mat) (indptr mat) start end smoothed_vals
          (n_cols mat) (int (n_rows mat))
        = Inr (replicate (n_cols mat) NaN))"
proof (intro conjI impI allI)
  assume a: "valid_csr mat \<and> 0 \<le> start \<and> start \<le> int (n_rows mat) \<and> start \<le> end \<and>
    (\<forall>r \<in> set (covered_rows mat start end). smoothed_vals (int r) \<noteq> None)"
  then have v: "valid_csr mat" and s0: "0 \<le> start" and sn: "start \<le> int (n_rows mat)"
    and se: "start \<le> end"
    and tr: "\<forall>r \<in> set (covered_rows mat start end). smoothed_vals (int r) \<noteq> None"
    by blast+
  show "calc_mean_shrunken_residuals (data mat) (indices mat) (indptr mat) start end smoothed_vals
          (n_cols mat) (int (n_rows mat))
        = Inr (region_residuals smoothed_vals mat start end)"
    by (rule calc_mean_shrunken_residuals_valid[OF v s0 sn se tr])
  show "length (region_residuals smoothed_vals mat start end) = n_cols mat"
    by (simp add: region_residuals_def)
  fix c assume "c < n_cols mat"
  then show "region_residuals smoothed_vals mat start end ! c =
           (if region_n_total mat start end ! c > 0
            then fdiv (fsub (Fin (of_int (region_n_meth mat start end ! c)))
                            (cell_smooth_sum smoothed_vals mat start end c))
                      (Fin (of_int (region_n_total mat start end ! c + 1)))
            else NaN)"
    by (simp add: region_residuals_def)
next
  assume "int (n_rows mat) < start"
  then show "calc_mean_shrunken_residuals (data mat) (indices mat) (indptr mat) start end smoothed_vals
          (n_cols mat) (int (n_rows mat))
        = Inr (replicate (n_cols mat) NaN)"
    by (simp add: calc_mean_shrunken_residuals_def)
qed

theorem calc_mean_shrunken_residuals_formula_witness:
  "valid_csr three_cell_chrom \<and> (0 :: int) \<le> 5 \<and> 5 \<le> int (n_rows three_cell_chrom) \<and>
   (5 :: int) \<le> 25 \<and>
   covered_rows three_cell_chrom 5 25 = [10, 20] \<and>
   two_site_track 10 \<noteq> None \<and> two_site_track 20 \<noteq> None \<and>
   region_n_total three_cell_chrom 5 25 = [2, 1, 0] \<and>
   region_n_meth three_cell_chrom 5 25 = [2, 0, 0] \<and>
   cell_smooth_sum two_site_track three_cell_chrom 5 25 0 = Fin (3 / 2) \<and>
   cell_smooth_sum two_site_track three_cell_chrom 5 25 1 = Fin (1 / 2) \<and>
   calc_mean_shrunken_residuals (data three_cell_chrom) (indices three_cell_chrom)
       (indptr three_cell_chrom) 5 25 two_site_track (n_cols three_cell_chrom)
       (int (n_rows three_cell_chrom))
     = Inr [Fin (1 / 6), Fin (- (1 / 4)), NaN] \<and>
   int (n_rows three_cell_chrom) < 22 \<and>
   calc_mean_shrunken_residuals (data three_cell_chrom) (indices three_cell_chrom)
       (indptr three_cell_chrom) 22 25 two_site_track (n_cols three_cell_chrom)
       (int (n_rows three_cell_chrom))
     = Inr [NaN, NaN, NaN]"
proof -
  let ?m = three_cell_chrom
  have n: "n_rows ?m = 21" "n_cols ?m = 3" by (simp_all add: three_cell_chrom_def)
  have nm: "region_n_meth ?m 5 25 = [2, 0, 0]" and nt: "region_n_total ?m 5 25 = [2, 1, 0]"
    by code_simp+
  have cov: "covered_rows ?m 5 25 = [10, 20]" by code_simp
  have rows: "entry_rows ?m 5 25 = [10, 10, 20]" by code_simp
  have cols: "region_cols ?m 5 25 = [0, 1, 0]" by code_simp
  have tv: "track_value two_site_track 10 = Fin (1 / 2)" "track_value two_site_track 20 = Fin 1"
    by (simp_all add: track_value_def two_site_track_def)
  have s0: "cell_smooth_sum two_site_track ?m 5 25 0 = Fin (3 / 2)"
    and s1: "cell_smooth_sum two_site_track ?m 5 25 1 = Fin (1 / 2)"
    and s2: "cell_smooth_sum two_site_track ?m 5 25 2 = Fin 0"
    by (simp_all add: cell_smooth_sum_def rows cols tv fsum_def)
  have tr: "\<forall>r \<in> set (covered_rows ?m 5 25). two_site_track (int r) \<noteq> None"
    by (simp add: cov two_site_track_def)
  have s1': "cell_smooth_sum two_site_track ?m 5 25 (Suc 0) = Fin (1 / 2)"
    using s1 by simp
  have res: "region_residuals two_site_track ?m 5 25 = [Fin (1 / 6), Fin (- (1 / 4)), NaN]"
    by (simp add: region_residuals_def n nm nt s0 s1' s2 upt_rec fsub_def)
  have r3: "replicate 3 NaN = [NaN, NaN, NaN]" by (simp add: numeral_3_eq_3)
  have t: "two_site_track 10 \<noteq> None" "two_site_track 20 \<noteq> None"
    by (simp_all add: two_site_track_def)
  show ?thesis
    using calc_mean_shrunken_residuals_formula [of ?m 5 25 two_site_track]
      calc_mean_shrunken_residuals_formula [of ?m 22 25 two_site_track]
    by (simp add: three_cell_chrom_valid n nm nt tr res r3 s0 s1' cov t)
qed

section \<open>Properties of the assembled store\<close>

lemma length_staged_entries:
  "length (staged_entries coverage chrom cell_n fpaths) = n_clean_calls coverage chrom fpaths"
  by (induction fpaths arbitrary: cell_n) (simp_all add: n_clean_calls_def)

lemma staged_entries_values:
  "e \<in> set (staged_entries coverage chrom cell_n fpaths) \<Longrightarrow>
   (snd (snd e) = 1 \<or> snd (snd e) = - 1) \<and> cell_n \<le> fst (snd e) \<and>
   fst (snd e) < cell_n + length fpaths"
proof (induction fpaths arbitrary: cell_n)
  case Nil
  then show ?case by simp
next
  case (Cons f fs)
  from Cons.prems consider
    (a) "e \<in> set (map (entry_of cell_n) (clean_calls coverage chrom f))"
    | (b) "e \<in> set (staged_entries coverage chrom (Suc cell_n) fs)"
    by auto
  then show ?case
  proof cases
    case a
    then show ?thesis by (auto simp: entry_of_def split: prod.splits if_splits)
  next
    case b
    from Cons.IH[OF b] show ?thesis by auto
  qed
qed

lemma take_concat_mono:
  "r \<le> r' \<Longrightarrow> length (concat (take r rows)) \<le> length (concat (take r' rows))"
proof -
  assume "r \<le> r'"
  then obtain d where "r' = r + d" using le_Suc_ex by blast
  then show ?thesis by (simp add: take_add)
qed

lemma sum_indicator_upt:
  "sum_list (map (\<lambda>r. if p = int r then 1 else 0) [0..<M]) = (if 0 \<le> p \<and> p < int M then (1::nat) else 0)"
  by (induction M) auto

lemma sum_row_lengths:
  assumes "\<forall>e \<in> set coo. 0 \<le> fst e \<and> fst e < int M"
  shows "sum_list (map (\<lambda>r. length (filter (\<lambda>e. fst e = int r) coo)) [0..<M]) = length coo"
  using assms
proof (induction coo)
  case Nil
  then show ?case by simp
next
  case (Cons e coo)
  have "sum_list (map (\<lambda>r. length (filter (\<lambda>e. fst e = int r) (e # coo))) [0..<M]) =
      sum_list (map (\<lambda>r. (if fst e = int r then 1 else 0) + length (filter (\<lambda>e. fst e = int r) coo)) [0..<M])"
    by (intro arg_cong[where f = sum_list] map_cong) simp_all
  also have "\<dots> = sum_list (map (\<lambda>r. if fst e = int r then 1 else 0) [0..<M]) +
      sum_list (map (\<lambda>r. length (filter (\<lambda>e. fst e = int r) coo)) [0..<M])"
    by (simp add: sum_list_addf)
  also have "\<dots> = 1 + length coo"
    using Cons by (simp add: sum_indicator_upt)
  finally show ?case by simp
qed

lemma coo_row_cols:
  "c \<in> fst ` set (coo_row coo r) \<Longrightarrow> \<exists>e \<in> set coo. fst (snd e) = c"
  by (fastforce simp: coo_row_def Let_def)

lemma tocsr_valid:
  assumes "tocsr coo M N = Inr mat"
  shows "valid_csr mat" "n_rows mat = M" "n_cols mat = N"
    "length (data mat) = sum_list (map (\<lambda>r. length (coo_row coo r)) [0..<M])"
    "set (data mat) = (\<Union>r \<in> {0..<M}. snd ` set (coo_row coo r))"
proof -
  let ?rows = "map (coo_row coo) [0..<M]"
  from assms have ok: "\<forall>e \<in> set coo. 0 \<le> fst e \<and> fst e < int M \<and> fst (snd e) < N"
    by (auto simp: tocsr_def split: if_splits)
  from assms have mat: "mat = \<lparr>data = concat (map (map snd) ?rows),
             indices = concat (map (map fst) ?rows),
             indptr = map (\<lambda>r. length (concat (take r ?rows))) [0..<Suc M],
             n_rows = M, n_cols = N\<rparr>"
    by (auto simp: tocsr_def Let_def split: if_splits)
  show "n_rows mat = M" "n_cols mat = N" by (simp_all add: mat)
  have ld: "length (data mat) = length (concat ?rows)"
    by (simp add: mat length_concat comp_def)
  have li: "length (indices mat) = length (concat ?rows)"
    by (simp add: mat length_concat comp_def)
  show "length (data mat) = sum_list (map (\<lambda>r. length (coo_row coo r)) [0..<M])"
    by (simp add: ld length_concat comp_def)
  show "set (data mat) = (\<Union>r \<in> {0..<M}. snd ` set (coo_row coo r))"
    by (auto simp: mat)
  have srt: "sorted (indptr mat)"
    unfolding sorted_iff_nth_mono
  proof (intro allI impI)
    fix i j assume ij: "i \<le> j" "j < length (indptr mat)"
    then have "indptr mat ! i = length (concat (take i ?rows))"
      "indptr mat ! j = length (concat (take j ?rows))"
      by (simp_all add: mat nth_append del: upt_Suc)
    then show "indptr mat ! i \<le> indptr mat ! j"
      using take_concat_mono[OF ij(1)] by simp
  qed
  have lst: "last (indptr mat) = length (data mat)"
    by (simp add: mat length_concat comp_def)
  have idx: "\<forall>c \<in> set (indices mat). c < n_cols mat"
  proof
    fix c assume "c \<in> set (indices mat)"
    then obtain r where "c \<in> fst ` set (coo_row coo r)" by (auto simp: mat)
    from coo_row_cols[OF this] ok show "c < n_cols mat" by (auto simp: mat)
  qed
  show "valid_csr mat"
    unfolding valid_csr_def using srt lst idx ld li by (simp add: mat)
qed

lemma filter_unique:
  "distinct (map f xs) \<Longrightarrow> x \<in> set xs \<Longrightarrow> filter (\<lambda>y. f y = f x) xs = [x]"
proof (induction xs)
  case Nil
  then show ?case by simp
next
  case (Cons a xs)
  show ?case
  proof (cases "a = x")
    case True
    with Cons.prems(1) have "f x \<notin> f ` set xs" by simp
    then have "\<forall>y \<in> set xs. f y \<noteq> f x" by (metis imageI)
    then have "filter (\<lambda>y. f y = f x) xs = []" by (simp add: filter_empty_conv)
    with True show ?thesis by simp
  next
    case False
    with Cons.prems have x: "x \<in> set xs" and "f a \<noteq> f x" by auto
    with Cons.IH Cons.prems(1) show ?thesis by simp
  qed
qed

lemma coo_row_no_repeats:
  assumes d: "no_repeated_site coo" and v: "\<forall>e \<in> set coo. snd (snd e) = 1 \<or> snd (snd e) = - 1"
  shows "length (coo_row coo r) = length (filter (\<lambda>e. fst e = int r) coo)"
    "\<forall>x \<in> snd ` set (coo_row coo r). x = 1 \<or> x = - 1"
proof -
  let ?here = "filter (\<lambda>e. fst e = int r) coo"
  let ?col = "\<lambda>e :: coo_entry. fst (snd e)"
  from d have "distinct (map (\<lambda>e. (fst e, ?col e)) ?here)"
    unfolding no_repeated_site_def by (rule distinct_map_filter)
  moreover have "map (\<lambda>e. (fst e, ?col e)) ?here = map (Pair (int r)) (map ?col ?here)"
    by (simp add: comp_def cong: map_cong)
  ultimately have "distinct (map (Pair (int r)) (map ?col ?here))" by simp
  then have dc: "distinct (map ?col ?here)"
    using distinct_map[of "Pair (int r)" "map ?col ?here"] by blast
  then have rd: "remdups (map ?col ?here) = map ?col ?here" by (rule distinct_remdups_id)
  show "length (coo_row coo r) = length ?here"
    by (simp add: coo_row_def Let_def rd)
  show "\<forall>x \<in> snd ` set (coo_row coo r). x = 1 \<or> x = - 1"
  proof
    fix x assume "x \<in> snd ` set (coo_row coo r)"
    moreover define W where
      "W c = wrap_int8 (sum_list (map (\<lambda>e. snd (snd e)) (filter (\<lambda>e. ?col e = c) ?here)))" for c
    moreover have "coo_row coo r = map (\<lambda>c. (c, W c)) (sort (remdups (map ?col ?here)))"
      by (simp add: coo_row_def Let_def W_def)
    ultimately have "x \<in> W ` set (map ?col ?here)"
      by (simp add: image_image)
    then obtain c where c: "c \<in> set (map ?col ?here)"
      and x: "x = wrap_int8 (sum_list (map (\<lambda>e. snd (snd e)) (filter (\<lambda>e. ?col e = c) ?here)))"
      unfolding W_def by blast
    from c obtain e where e: "e \<in> set ?here" "c = ?col e" by auto
    from filter_unique[OF dc e(1)] e(2)
    have "filter (\<lambda>y. ?col y = c) ?here = [e]" by simp
    with x have "x = wrap_int8 (snd (snd e))" by simp
    moreover from e(1) v have "snd (snd e) = 1 \<or> snd (snd e) = - 1" by auto
    ultimately show "x = 1 \<or> x = - 1" by (auto simp: wrap_int8_def)
  qed
qed

lemma prepare_Inr:
  assumes "prepare coverage input_files chrom = Inr mat"
  shows "\<exists>chrom_size. 0 \<le> chrom_size \<and>
           1 < length (staged_entries coverage chrom 0 input_files) \<and>
           tocsr (staged_entries coverage chrom 0 input_files) (nat (chrom_size + 1))
             (length input_files) = Inr mat"
proof -
  from dump_coo_files_run[of coverage input_files]
  obtain st where st: "dump_coo_files coverage input_files = Inr st" and inv: "dump_inv st"
    and w: "\<forall>c. written st c = staged_entries coverage c 0 input_files"
    by blast
  from assms st obtain coo chrom_size where c: "coo_files st chrom = Some coo"
    and z: "chrom_sizes st chrom = Some chrom_size"
    and p: "prepare_chrom (length input_files) chrom_size coo = Inr mat"
    by (auto simp: prepare_def split: option.splits)
  from c w have coo: "coo = staged_entries coverage chrom 0 input_files"
    by (auto simp: written_def split: option.splits)
  from inv z have "0 \<le> chrom_size" by (auto simp: dump_inv_def)
  moreover from p have "1 < length coo"
    "tocsr coo (nat (chrom_size + 1)) (length input_files) = Inr mat"
    by (auto simp: prepare_chrom_def split: if_splits)
  ultimately show ?thesis using coo by blast
qed

text \<open>
  Claim C5. Every store that \<^verbatim>\<open>prepare\<close> assembles for a chromosome is well formed: its
  row offsets are in ascending order and every column index is a cell index below the
  number of cells. If no cell reports a position of the chromosome twice among its clean
  calls, every stored value is 1 or -1 and the number of stored entries is the number
  of clean calls of the chromosome.
\<close>

theorem prepare_store_invariants:
  "prepare coverage input_files chrom = Inr mat \<longrightarrow>
     valid_csr mat \<and> n_cols mat = length input_files \<and>
     sorted (indptr mat) \<and>
     (\<forall>c \<in> set (indices mat). c < length input_files) \<and>
     (no_repeated_site (staged_entries coverage chrom 0 input_files) \<longrightarrow>
        (\<forall>v \<in> set (data mat). v = 1 \<or> v = - 1) \<and>
        length (data mat) = n_clean_calls coverage chrom input_files)"
proof (intro impI conjI)
  assume a: "prepare coverage input_files chrom = Inr mat"
  let ?coo = "staged_entries coverage chrom 0 input_files"
  from prepare_Inr[OF a] obtain chrom_size
    where t: "tocsr ?coo (nat (chrom_size + 1)) (length input_files) = Inr mat"
    by blast
  note tv = tocsr_valid[OF t]
  show v: "valid_csr mat" by (rule tv(1))
  show nc: "n_cols mat = length input_files" by (rule tv(3))
  from v show "sorted (indptr mat)" by (simp add: valid_csr_def)
  from v nc show "\<forall>c \<in> set (indices mat). c < length input_files" by (simp add: valid_csr_def)
  from t have ok: "\<forall>e \<in> set ?coo. 0 \<le> fst e \<and> fst e < int (nat (chrom_size + 1))"
    by (auto simp: tocsr_def split: if_splits)
  have vals: "\<forall>e \<in> set ?coo. snd (snd e) = 1 \<or> snd (snd e) = - 1"
    using staged_entries_values by blast
  {
    assume d: "no_repeated_site ?coo"
    note nr = coo_row_no_repeats[OF d vals]
    show "\<forall>v \<in> set (data mat). v = 1 \<or> v = - 1"
      unfolding tv(5) using nr(2) by blast
    have "length (data mat) =
        sum_list (map (\<lambda>r. length (filter (\<lambda>e. fst e = int r) ?coo)) [0..<nat (chrom_size + 1)])"
      unfolding tv(4) by (simp add: nr(1))
    also have "\<dots> = length ?coo" by (rule sum_row_lengths[OF ok])
    finally show "length (data mat) = n_clean_calls coverage chrom input_files"
      by (simp add: length_staged_entries)
  }
qed

theorem prepare_store_invariants_witness:
  "prepare False two_cell_input ''chr1'' =
     Inr \<lparr>data = [- 1, - 1, 1], indices = [0, 1, 0], indptr = [0, 0, 0, 0, 2, 2, 3],
          n_rows = 6, n_cols = 2\<rparr> \<and>
   no_repeated_site (staged_entries False ''chr1'' 0 two_cell_input) \<and>
   n_clean_calls False ''chr1'' two_cell_input = 3 \<and>
   valid_csr \<lparr>data = [- 1, - 1, 1], indices = [0, 1, 0], indptr = [0, 0, 0, 0, 2, 2, 3],
          n_rows = 6, n_cols = 2\<rparr>"
proof -
  have p: "prepare False two_cell_input ''chr1'' =
     Inr \<lparr>data = [- 1, - 1, 1], indices = [0, 1, 0], indptr = [0, 0, 0, 0, 2, 2, 3],
          n_rows = 6, n_cols = 2\<rparr>"
    by code_simp
  have d: "no_repeated_site (staged_entries False ''chr1'' 0 two_cell_input)"
    by code_simp
  have n: "n_clean_calls False ''chr1'' two_cell_input = 3"
    by code_simp
  show ?thesis
    using prepare_store_invariants [of False two_cell_input "''chr1''"
        "\<lparr>data = [- 1, - 1, 1], indices = [0, 1, 0], indptr = [0, 0, 0, 0, 2, 2, 3],
          n_rows = 6, n_cols = 2\<rparr>"] p d n
    by simp
qed

text \<open>
  When a cell's file holds two methylated calls at the same position, the conversion sums
  them: the store has one entry, with value 2, for two clean calls.
\<close>

theorem prepare_repeated_site_sums:
  "prepare False repeated_site_input ''chr1'' =
     Inr \<lparr>data = [2], indices = [0], indptr = [0, 0, 0, 0, 0, 0, 1], n_rows = 6, n_cols = 1\<rparr> \<and>
   n_clean_calls False ''chr1'' repeated_site_input = 2"
  by code_simp

section \<open>Properties of single records in the assembled store\<close>

text \<open>
  Row \<open>r\<close> of the converted matrix holds the entries that the conversion computes for
  position \<open>r\<close>, and a staged entry whose site is not repeated is the only entry of its
  column there.
\<close>

lemma concat_slice:
  "r < length rows \<Longrightarrow>
   take (length (rows ! r)) (drop (length (concat (take r rows))) (concat rows)) = rows ! r"
proof -
  assume r: "r < length rows"
  then have "rows = take r rows @ rows ! r # drop (Suc r) rows"
    by (rule id_take_nth_drop)
  then have "concat rows = concat (take r rows) @ rows ! r @ concat (drop (Suc r) rows)"
    by (metis concat.simps(2) concat_append)
  then show ?thesis by simp
qed

lemma tocsr_row:
  assumes t: "tocsr coo M N = Inr mat" and r: "r < M"
  shows "csr_row mat r = coo_row coo r"
proof -
  let ?rows = "map (coo_row coo) [0..<M]"
  from t have mat: "mat = \<lparr>data = concat (map (map snd) ?rows),
             indices = concat (map (map fst) ?rows),
             indptr = map (\<lambda>r. length (concat (take r ?rows))) [0..<Suc M],
             n_rows = M, n_cols = N\<rparr>"
    by (auto simp: tocsr_def Let_def split: if_splits)
  have lr: "length ?rows = M" by simp
  have row: "?rows ! r = coo_row coo r" using r by simp
  have p0: "indptr mat ! r = length (concat (take r ?rows))"
    using r by (simp add: mat nth_append del: upt_Suc)
  have p1: "indptr mat ! Suc r = length (concat (take (Suc r) ?rows))"
    using r by (simp add: mat nth_append del: upt_Suc)
  have "take (Suc r) ?rows = take r ?rows @ [?rows ! r]"
    using r lr by (simp add: take_Suc_conv_app_nth del: upt_Suc)
  then have p1': "indptr mat ! Suc r = indptr mat ! r + length (coo_row coo r)"
    unfolding p0 p1 using row by simp
  have d: "data mat = map snd (concat ?rows)" by (simp add: mat map_concat)
  have i: "indices mat = map fst (concat ?rows)" by (simp add: mat map_concat)
  have sl: "take (length (coo_row coo r)) (drop (indptr mat ! r) (concat ?rows)) = coo_row coo r"
    unfolding p0 using concat_slice[of r ?rows] lr r row by simp
  have "csr_row mat r =
      zip (map fst (take (length (coo_row coo r)) (drop (indptr mat ! r) (concat ?rows))))
          (map snd (take (length (coo_row coo r)) (drop (indptr mat ! r) (concat ?rows))))"
    unfolding csr_row_def row_data_def p1' d i by (simp add: take_map drop_map)
  then show ?thesis unfolding sl by (simp add: zip_map_fst_snd)
qed

lemma filter_eq_single: "distinct xs \<Longrightarrow> x \<in> set xs \<Longrightarrow> filter (\<lambda>y. y = x) xs = [x]"
  using filter_unique[of "\<lambda>y. y" xs x] by simp

lemma coo_row_entry:
  assumes d: "no_repeated_site coo" and e: "e \<in> set coo" and r: "fst e = int r"
    and v: "snd (snd e) = 1 \<or> snd (snd e) = - 1"
  shows "filter (\<lambda>x. fst x = fst (snd e)) (coo_row coo r) = [(fst (snd e), snd (snd e))]"
proof -
  let ?here = "filter (\<lambda>e. fst e = int r) coo"
  let ?col = "\<lambda>e :: coo_entry. fst (snd e)"
  let ?cols = "sort (remdups (map ?col ?here))"
  define W where
    "W c = wrap_int8 (sum_list (map (\<lambda>e. snd (snd e)) (filter (\<lambda>e. ?col e = c) ?here)))" for c
  have cr: "coo_row coo r = map (\<lambda>c. (c, W c)) ?cols"
    by (simp add: coo_row_def Let_def W_def)
  from e r have eh: "e \<in> set ?here" by simp
  from d have "distinct (map (\<lambda>e. (fst e, ?col e)) ?here)"
    unfolding no_repeated_site_def by (rule distinct_map_filter)
  moreover have "map (\<lambda>e. (fst e, ?col e)) ?here = map (Pair (int r)) (map ?col ?here)"
    by (simp add: comp_def cong: map_cong)
  ultimately have "distinct (map (Pair (int r)) (map ?col ?here))" by simp
  then have dc: "distinct (map ?col ?here)"
    using distinct_map[of "Pair (int r)" "map ?col ?here"] by blast
  from filter_unique[OF dc eh] have "filter (\<lambda>y. ?col y = ?col e) ?here = [e]" by simp
  then have w: "W (?col e) = snd (snd e)"
    using v by (auto simp: W_def wrap_int8_def)
  have dcols: "distinct ?cols" by simp
  have mem: "?col e \<in> set ?cols" using eh by simp
  have "filter (\<lambda>x. fst x = ?col e) (map (\<lambda>c. (c, W c)) ?cols) =
      map (\<lambda>c. (c, W c)) (filter (\<lambda>c. c = ?col e) ?cols)"
    by (simp add: filter_map comp_def)
  also have "\<dots> = [(?col e, W (?col e))]"
    using filter_eq_single[OF dcols mem] by simp
  finally show ?thesis unfolding cr w .
qed

lemma staged_entries_member:
  assumes "cell < length fpaths" "vals \<in> set (clean_calls coverage chrom (fpaths ! cell))"
  shows "entry_of (cell_n + cell) vals \<in> set (staged_entries coverage chrom cell_n fpaths)"
  using assms
proof (induction fpaths arbitrary: cell cell_n)
  case Nil
  then show ?case by simp
next
  case (Cons f fs)
  show ?case
  proof (cases cell)
    case 0
    with Cons.prems show ?thesis by simp
  next
    case (Suc k)
    with Cons.prems have "k < length fs" "vals \<in> set (clean_calls coverage chrom (fs ! k))"
      by simp_all
    from Cons.IH[OF this, of "Suc cell_n"] Suc show ?thesis by simp
  qed
qed

lemma prepare_stores_clean_call:
  assumes pr: "prepare coverage input_files chrom = Inr mat"
    and d: "no_repeated_site (staged_entries coverage chrom 0 input_files)"
    and c: "cell < length input_files" and l: "line \<in> set (input_files ! cell)"
    and lv: "line_to_values coverage line = (chrom, p, n_meth, n_unmeth)"
    and cl: "\<not> (n_meth \<noteq> 0 \<and> n_unmeth \<noteq> 0)"
  shows "0 \<le> p \<and> nat p < n_rows mat \<and>
     filter (\<lambda>x. fst x = cell) (csr_row mat (nat p)) = [(cell, if n_meth > 0 then 1 else - 1)]"
proof -
  let ?coo = "staged_entries coverage chrom 0 input_files"
  let ?e = "entry_of cell (chrom, p, n_meth, n_unmeth)"
  from prepare_Inr[OF pr] obtain chrom_size
    where t: "tocsr ?coo (nat (chrom_size + 1)) (length input_files) = Inr mat"
    by blast
  have "(chrom, p, n_meth, n_unmeth) \<in> set (clean_calls coverage chrom (input_files ! cell))"
    using l lv cl by (force simp: clean_calls_def clean_call_def)
  from staged_entries_member[OF c this, of 0] have mem: "?e \<in> set ?coo" by simp
  have e: "?e = (p, cell, if n_meth > 0 then 1 else - 1)" by (simp add: entry_of_def)
  from t mem have b: "0 \<le> p" "p < int (nat (chrom_size + 1))"
    by (auto simp: tocsr_def e split: if_splits)
  have nr: "n_rows mat = nat (chrom_size + 1)" using tocsr_valid(2)[OF t] .
  from b have r: "nat p < nat (chrom_size + 1)" by linarith
  have row: "csr_row mat (nat p) = coo_row ?coo (nat p)" by (rule tocsr_row[OF t r])
  have "filter (\<lambda>x. fst x = fst (snd ?e)) (coo_row ?coo (nat p)) = [(fst (snd ?e), snd (snd ?e))]"
    using b(1) by (intro coo_row_entry[OF d mem]) (simp_all add: e)
  then show ?thesis using b(1) r nr row by (simp add: e)
qed


lemma dump_cell_skip_ambiguous:
  assumes "line_to_values coverage line = (c, p, n_meth, n_unmeth)" "n_meth \<noteq> 0" "n_unmeth \<noteq> 0"
  shows "dump_cell coverage cell_n (ls1 @ line # ls2) st = dump_cell coverage cell_n (ls1 @ ls2) st"
proof (induction ls1 arbitrary: st)
  case Nil
  show ?case using assms by (simp add: dump_record_ambiguous)
next
  case (Cons l ls)
  show ?case
    by (cases "dump_record cell_n (line_to_values coverage l) st") (simp_all add: Cons.IH)
qed

lemma dump_cells_skip_ambiguous:
  assumes "line_to_values coverage line = (c, p, n_meth, n_unmeth)" "n_meth \<noteq> 0" "n_unmeth \<noteq> 0"
  shows "dump_cells coverage cell_n (cells_pre @ (ls1 @ line # ls2) # cells_post) st =
         dump_cells coverage cell_n (cells_pre @ (ls1 @ ls2) # cells_post) st"
proof (induction cells_pre arbitrary: cell_n st)
  case Nil
  show ?case by (simp add: dump_cell_skip_ambiguous[OF assms])
next
  case (Cons f fs)
  show ?case
    by (cases "dump_cell coverage cell_n f st") (simp_all add: Cons.IH)
qed

lemma prepare_skip_ambiguous:
  assumes "line_to_values coverage line = (c, p, n_meth, n_unmeth)" "n_meth \<noteq> 0" "n_unmeth \<noteq> 0"
  shows "prepare coverage (cells_pre @ (ls1 @ line # ls2) # cells_post) chrom =
         prepare coverage (cells_pre @ (ls1 @ ls2) # cells_post) chrom"
proof -
  have "length (cells_pre @ (ls1 @ line # ls2) # cells_post) =
        length (cells_pre @ (ls1 @ ls2) # cells_post)"
    by simp
  then show ?thesis
    unfolding prepare_def dump_coo_files_def dump_cells_skip_ambiguous[OF assms]
    by (simp only:)
qed

text \<open>
  Claim C4. A record whose methylated and unmethylated counts are both nonzero is
  skipped without an error: it leaves both dictionaries as they are, and for every
  chromosome \<^verbatim>\<open>prepare\<close> returns the same result with the record in the input as
  without it, so the record contributes no entry to any store. Any other record appends
  exactly one entry to its chromosome's file, with value 1 when the methylated count
  is positive and -1 otherwise, and over a whole run the file of each chromosome holds
  exactly the entries of the clean calls on that chromosome. In the store that
  \<^verbatim>\<open>prepare\<close> assembles for the record's chromosome, provided no cell reports a position
  of that chromosome twice among its clean calls, the row of the record's position has
  exactly one entry in the column of the record's cell, and its value is 1 when the
  methylated count is positive and -1 otherwise.
\<close>

theorem ambiguous_record_dropped_clean_record_stored:
  "(line_to_values coverage line = (c, p, n_meth, n_unmeth) \<and> n_meth \<noteq> 0 \<and> n_unmeth \<noteq> 0 \<longrightarrow>
      dump_record cell_n (c, p, n_meth, n_unmeth) st = Inr st \<and>
      (\<forall>chrom. prepare coverage (cells_pre @ (ls1 @ line # ls2) # cells_post) chrom =
               prepare coverage (cells_pre @ (ls1 @ ls2) # cells_post) chrom))
   \<and> (\<not> (n_meth \<noteq> 0 \<and> n_unmeth \<noteq> 0) \<and> dom (coo_files st) = dom (chrom_sizes st) \<longrightarrow>
      (\<exists>st'. dump_record cell_n (c, p, n_meth, n_unmeth) st = Inr st' \<and>
         written st' c =
           written st c @ [(p, cell_n, if n_meth > 0 then 1 else - 1)] \<and>
         (\<forall>c'. c' \<noteq> c \<longrightarrow> coo_files st' c' = coo_files st c')))
   \<and> (\<exists>st. dump_coo_files coverage input_files = Inr st \<and>
         (\<forall>c'. written st c' = staged_entries coverage c' 0 input_files))
   \<and> (prepare coverage input_files c = Inr mat \<and>
       no_repeated_site (staged_entries coverage c 0 input_files) \<and>
       cell < length input_files \<and> line \<in> set (input_files ! cell) \<and>
       line_to_values coverage line = (c, p, n_meth, n_unmeth) \<and>
       \<not> (n_meth \<noteq> 0 \<and> n_unmeth \<noteq> 0) \<longrightarrow>
       0 \<le> p \<and> nat p < n_rows mat \<and>
       filter (\<lambda>x. fst x = cell) (csr_row mat (nat p)) =
         [(cell, if n_meth > 0 then 1 else - 1)])"
proof (intro conjI impI allI)
  assume a: "line_to_values coverage line = (c, p, n_meth, n_unmeth) \<and> n_meth \<noteq> 0 \<and> n_unmeth \<noteq> 0"
  then show "dump_record cell_n (c, p, n_meth, n_unmeth) st = Inr st"
    by (simp add: dump_record_ambiguous)
  fix chrom
  from a show "prepare coverage (cells_pre @ (ls1 @ line # ls2) # cells_post) chrom =
               prepare coverage (cells_pre @ (ls1 @ ls2) # cells_post) chrom"
    using prepare_skip_ambiguous by blast
next
  assume a: "\<not> (n_meth \<noteq> 0 \<and> n_unmeth \<noteq> 0) \<and> dom (coo_files st) = dom (chrom_sizes st)"
  then have "n_meth = 0 \<or> n_unmeth = 0" by blast
  from dump_record_clean[OF _ this, of st cell_n c p] a
  show "\<exists>st'. dump_record cell_n (c, p, n_meth, n_unmeth) st = Inr st' \<and>
         written st' c =
           written st c @ [(p, cell_n, if n_meth > 0 then 1 else - 1)] \<and>
         (\<forall>c'. c' \<noteq> c \<longrightarrow> coo_files st' c' = coo_files st c')"
    by (simp add: written_def)
next
  from dump_coo_files_run[of coverage input_files]
  show "\<exists>st. dump_coo_files coverage input_files = Inr st \<and>
         (\<forall>c'. written st c' = staged_entries coverage c' 0 input_files)"
    by blast
next
  assume a: "prepare coverage input_files c = Inr mat \<and>
       no_repeated_site (staged_entries coverage c 0 input_files) \<and>
       cell < length input_files \<and> line \<in> set (input_files ! cell) \<and>
       line_to_values coverage line = (c, p, n_meth, n_unmeth) \<and>
       \<not> (n_meth \<noteq> 0 \<and> n_unmeth \<noteq> 0)"
  then have "0 \<le> p \<and> nat p < n_rows mat \<and>
       filter (\<lambda>x. fst x = cell) (csr_row mat (nat p)) =
         [(cell, if n_meth > 0 then 1 else - 1)]"
    by (intro prepare_stores_clean_call[of coverage input_files c mat cell line]) blast+
  then show "0 \<le> p" "nat p < n_rows mat"
    "filter (\<lambda>x. fst x = cell) (csr_row mat (nat p)) = [(cell, if n_meth > 0 then 1 else - 1)]"
    by blast+
qed

theorem ambiguous_record_dropped_clean_record_stored_witness:
  "line_to_values False (''chr1'', 4, 2, 3) = (''chr1'', 4, 2, 3) \<and>
   dump_record 0 (''chr1'', 4, 2, 3) init_dump_state = Inr init_dump_state \<and>
   prepare False two_cell_input ''chr1'' =
     prepare False [[(''chr1'', 5, 1, 0), (''chr1'', 3, 0, 1)],
                    [(''chr1'', 3, 0, 0), (''chr2'', 3, 0, 0)]] ''chr1'' \<and>
   dom (coo_files init_dump_state) = dom (chrom_sizes init_dump_state) \<and>
   (\<exists>st'. dump_record 0 (''chr1'', 5, 1, 0) init_dump_state = Inr st' \<and>
      written st' ''chr1'' = [(5, 0, 1)]) \<and>
   (\<exists>st. dump_coo_files False two_cell_input = Inr st \<and>
      written st ''chr1'' = [(5, 0, 1), (3, 0, - 1), (3, 1, - 1)]) \<and>
   prepare False two_cell_input ''chr1'' =
     Inr \<lparr>data = [- 1, - 1, 1], indices = [0, 1, 0], indptr = [0, 0, 0, 0, 2, 2, 3],
          n_rows = 6, n_cols = 2\<rparr> \<and>
   no_repeated_site (staged_entries False ''chr1'' 0 two_cell_input) \<and>
   0 < length two_cell_input \<and>
   (''chr1'', 5, 1, 0) \<in> set (two_cell_input ! 0) \<and>
   line_to_values False (''chr1'', 5, 1, 0) = (''chr1'', 5, 1, 0) \<and>
   filter (\<lambda>x. fst x = 0)
     (csr_row \<lparr>data = [- 1, - 1, 1], indices = [0, 1, 0], indptr = [0, 0, 0, 0, 2, 2, 3],
          n_rows = 6, n_cols = 2\<rparr> 5) = [(0, 1)]"
proof -
  let ?mat = "\<lparr>data = [- 1, - 1, 1], indices = [0, 1, 0], indptr = [0, 0, 0, 0, 2, 2, 3],
          n_rows = 6, n_cols = 2\<rparr>"
  have l4: "line_to_values False (''chr1'', 4, 2, 3) = (''chr1'', 4, 2, 3)"
    by (simp add: line_to_values_def)
  have l5: "line_to_values False (''chr1'', 5, 1, 0) = (''chr1'', 5, 1, 0)"
    by (simp add: line_to_values_def)
  have d: "dom (coo_files init_dump_state) = dom (chrom_sizes init_dump_state)"
    by (simp add: init_dump_state_def)
  have w0: "written init_dump_state ''chr1'' = []"
    by (simp add: written_def init_dump_state_def)
  have staged: "staged_entries False ''chr1'' 0 two_cell_input = [(5, 0, 1), (3, 0, - 1), (3, 1, - 1)]"
    by (simp add: two_cell_input_def clean_calls_def clean_call_def entry_of_def line_to_values_def)
  have p: "prepare False two_cell_input ''chr1'' = Inr ?mat"
    by code_simp
  have nr: "no_repeated_site (staged_entries False ''chr1'' 0 two_cell_input)"
    by (simp add: staged no_repeated_site_def)
  have m: "0 < length two_cell_input" "(''chr1'', 5, 1, 0) \<in> set (two_cell_input ! 0)"
    by (simp_all add: two_cell_input_def)
  have a: "dump_record 0 (''chr1'', 4, 2, 3) init_dump_state = Inr init_dump_state \<and>
     prepare False two_cell_input ''chr1'' =
       prepare False [[(''chr1'', 5, 1, 0), (''chr1'', 3, 0, 1)],
                      [(''chr1'', 3, 0, 0), (''chr2'', 3, 0, 0)]] ''chr1''"
    using ambiguous_record_dropped_clean_record_stored [where coverage = False
        and line = "(''chr1'', 4, 2, 3)" and c = "''chr1''" and p = 4 and n_meth = 2
        and n_unmeth = 3 and cell_n = 0 and st = init_dump_state and cells_pre = "[]"
        and ?ls1.0 = "[(''chr1'', 5, 1, 0), (''chr1'', 3, 0, 1)]" and ?ls2.0 = "[]"
        and cells_post = "[[(''chr1'', 3, 0, 0), (''chr2'', 3, 0, 0)]]"
        and input_files = two_cell_input and mat = ?mat and cell = 0] l4
    by (simp add: two_cell_input_def)
  have b: "(\<exists>st'. dump_record 0 (''chr1'', 5, 1, 0) init_dump_state = Inr st' \<and>
      written st' ''chr1'' = [(5, 0, 1)]) \<and>
     (\<exists>st. dump_coo_files False two_cell_input = Inr st \<and>
      written st ''chr1'' = [(5, 0, 1), (3, 0, - 1), (3, 1, - 1)]) \<and>
     filter (\<lambda>x. fst x = 0) (csr_row ?mat 5) = [(0, 1)]"
    using ambiguous_record_dropped_clean_record_stored [where coverage = False
        and line = "(''chr1'', 5, 1, 0)" and c = "''chr1''" and p = 5 and n_meth = 1
        and n_unmeth = 0 and cell_n = 0 and st = init_dump_state and cells_pre = "[]"
        and ?ls1.0 = "[]" and ?ls2.0 = "[]" and cells_post = "[]"
        and input_files = two_cell_input and mat = ?mat and cell = 0] l5 d w0 staged p nr m
    by auto
  from a b l4 l5 d p nr m show ?thesis by blast
qed

text \<open>
  When a cell's file reports a position twice as unmethylated, the two clean records
  give a single stored entry, of value -2: neither contributes an entry of value -1.
\<close>

theorem prepare_two_unmethylated_calls_one_entry:
  "line_to_values False (''chr1'', 5, 0, 1) = (''chr1'', 5, 0, 1) \<and>
   twice_unmethylated_input ! 0 = [(''chr1'', 5, 0, 1), (''chr1'', 5, 0, 1)] \<and>
   prepare False twice_unmethylated_input ''chr1'' =
     Inr \<lparr>data = [- 2], indices = [0], indptr = [0, 0, 0, 0, 0, 0, 1], n_rows = 6, n_cols = 1\<rparr> \<and>
   csr_row \<lparr>data = [- 2], indices = [0], indptr = [0, 0, 0, 0, 0, 0, 1], n_rows = 6, n_cols = 1\<rparr> 5
     = [(0, - 2)]"
  by code_simp

text \<open>
  Claim C10. A record whose counts are both zero passes the ambiguity test, which skips a
  record only when both counts are nonzero, and is written with value -1 at its position
  and cell index; both column layouts turn a line with two zeros into such a record. In
  the store that \<^verbatim>\<open>prepare\<close> assembles for the record's chromosome, provided no cell
  reports a position of that chromosome twice among its clean calls, the row of the
  record's position has exactly one entry in the column of the record's cell, and its
  value is -1.
\<close>

theorem both_zero_record_stored_as_unmethylated:
  "clean_call (chrom, p, 0, 0) \<and>
   (dom (coo_files st) = dom (chrom_sizes st) \<longrightarrow>
     (\<exists>st'. dump_record cell_n (chrom, p, 0, 0) st = Inr st' \<and>
        written st' chrom = written st chrom @ [(p, cell_n, - 1)]))
   \<and> line_to_values True (chrom, p, 0, 0) = (chrom, p, 0, 0)
   \<and> line_to_values False (chrom, p, 0, 0) = (chrom, p, 0, 0)
   \<and> (prepare coverage input_files chrom = Inr mat \<and>
       no_repeated_site (staged_entries coverage chrom 0 input_files) \<and>
       cell < length input_files \<and> line \<in> set (input_files ! cell) \<and>
       line_to_values coverage line = (chrom, p, 0, 0) \<longrightarrow>
       0 \<le> p \<and> nat p < n_rows mat \<and>
       filter (\<lambda>x. fst x = cell) (csr_row mat (nat p)) = [(cell, - 1)])"
proof (intro conjI impI)
  show "clean_call (chrom, p, 0, 0)" by (simp add: clean_call_def)
next
  assume d: "dom (coo_files st) = dom (chrom_sizes st)"
  from dump_record_clean[OF d, of 0 0 cell_n chrom p]
  show "\<exists>st'. dump_record cell_n (chrom, p, 0, 0) st = Inr st' \<and>
        written st' chrom = written st chrom @ [(p, cell_n, - 1)]"
    by (simp add: written_def)
next
  show "line_to_values True (chrom, p, 0, 0) = (chrom, p, 0, 0)"
    by (simp add: line_to_values_def)
next
  show "line_to_values False (chrom, p, 0, 0) = (chrom, p, 0, 0)"
    by (simp add: line_to_values_def)
next
  assume a: "prepare coverage input_files chrom = Inr mat \<and>
       no_repeated_site (staged_entries coverage chrom 0 input_files) \<and>
       cell < length input_files \<and> line \<in> set (input_files ! cell) \<and>
       line_to_values coverage line = (chrom, p, 0, 0)"
  then have "0 \<le> p \<and> nat p < n_rows mat \<and>
       filter (\<lambda>x. fst x = cell) (csr_row mat (nat p)) =
         [(cell, if (0 :: int) > 0 then 1 else - 1)]"
    by (intro prepare_stores_clean_call[of coverage input_files chrom mat cell line p 0 0]) simp_all
  then show "0 \<le> p" "nat p < n_rows mat"
    "filter (\<lambda>x. fst x = cell) (csr_row mat (nat p)) = [(cell, - 1)]"
    by simp_all
qed

theorem both_zero_record_stored_as_unmethylated_witness:
  "dom (coo_files init_dump_state) = dom (chrom_sizes init_dump_state) \<and>
   (\<exists>st'. dump_record 1 (''chr1'', 3, 0, 0) init_dump_state = Inr st' \<and>
        written st' ''chr1'' = [(3, 1, - 1)]) \<and>
   prepare False two_cell_input ''chr1'' =
     Inr \<lparr>data = [- 1, - 1, 1], indices = [0, 1, 0], indptr = [0, 0, 0, 0, 2, 2, 3],
          n_rows = 6, n_cols = 2\<rparr> \<and>
   no_repeated_site (staged_entries False ''chr1'' 0 two_cell_input) \<and>
   1 < length two_cell_input \<and>
   (''chr1'', 3, 0, 0) \<in> set (two_cell_input ! 1) \<and>
   line_to_values False (''chr1'', 3, 0, 0) = (''chr1'', 3, 0, 0) \<and>
   filter (\<lambda>x. fst x = 1)
     (csr_row \<lparr>data = [- 1, - 1, 1], indices = [0, 1, 0], indptr = [0, 0, 0, 0, 2, 2, 3],
          n_rows = 6, n_cols = 2\<rparr> 3) = [(1, - 1)]"
proof -
  let ?mat = "\<lparr>data = [- 1, - 1, 1], indices = [0, 1, 0], indptr = [0, 0, 0, 0, 2, 2, 3],
          n_rows = 6, n_cols = 2\<rparr>"
  have l: "line_to_values False (''chr1'', 3, 0, 0) = (''chr1'', 3, 0, 0)"
    by (simp add: line_to_values_def)
  have d: "dom (coo_files init_dump_state) = dom (chrom_sizes init_dump_state)"
    by (simp add: init_dump_state_def)
  have w0: "written init_dump_state ''chr1'' = []"
    by (simp add: written_def init_dump_state_def)
  have p: "prepare False two_cell_input ''chr1'' = Inr ?mat"
    by code_simp
  have nr: "no_repeated_site (staged_entries False ''chr1'' 0 two_cell_input)"
    by code_simp
  have m: "1 < length two_cell_input" "(''chr1'', 3, 0, 0) \<in> set (two_cell_input ! 1)"
    by (simp_all add: two_cell_input_def)
  have b: "(\<exists>st'. dump_record 1 (''chr1'', 3, 0, 0) init_dump_state = Inr st' \<and>
        written st' ''chr1'' = [(3, 1, - 1)]) \<and>
     filter (\<lambda>x. fst x = 1) (csr_row ?mat 3) = [(1, - 1)]"
    using both_zero_record_stored_as_unmethylated [where chrom = "''chr1''" and p = 3
        and st = init_dump_state and cell_n = 1 and coverage = False
        and input_files = two_cell_input and mat = ?mat and cell = 1
        and line = "(''chr1'', 3, 0, 0)"] l d w0 p nr m
    by simp
  from b l d p nr m show ?thesis by blast
qed

text \<open>
  When the same cell also reports the position as methylated, the two entries are summed:
  the value stored at the position and cell of the both-zero record is 0, not -1.
\<close>

theorem prepare_zero_record_beside_methylated_call:
  "line_to_values False (''chr1'', 5, 0, 0) = (''chr1'', 5, 0, 0) \<and>
   zero_beside_methylated_input ! 0 = [(''chr1'', 5, 0, 0), (''chr1'', 5, 1, 0)] \<and>
   prepare False zero_beside_methylated_input ''chr1'' =
     Inr \<lparr>data = [0], indices = [0], indptr = [0, 0, 0, 0, 0, 0, 1], n_rows = 6, n_cols = 1\<rparr> \<and>
   csr_row \<lparr>data = [0], indices = [0], indptr = [0, 0, 0, 0, 0, 0, 1], n_rows = 6, n_cols = 1\<rparr> 5
     = [(0, 0)]"
  by code_simp

text \<open>
  A chromosome with a single clean call in the whole input has a one-line file, which is
  read as a one-dimensional array: \<^verbatim>\<open>prepare\<close> fails on it and assembles no store.
\<close>

lemma prepare_single_call_fails:
  "prepare False [[(''chr1'', 5, 0, 1)]] ''chr1'' = Inl IndexError"
  by code_simp

section \<open>Properties of the genome scanner\<close>

lemma scan_loop_Some:
  "scan_loop nanquantile half_bw stepsize var_threshold paths (Some t) =
   scan_fixed half_bw stepsize t paths"
  by (induction paths) (simp_all split: sum.splits)

lemma sorted_neg_key:
  "sorted (map (\<lambda>x. - int (g x)) xs) \<Longrightarrow> sorted (rev (map g xs))"
  by (induction xs) (auto simp: sorted_append)

text \<open>
  Claim C3. \<^verbatim>\<open>scan\<close> processes the chromosome files in order of decreasing file size.
  The threshold value is \<^verbatim>\<open>np.nanquantile\<close> of the window variances of the first, largest
  file at \<open>1 - var_threshold\<close>, and the peaks of every chromosome, the first included,
  are called with this one value: the run equals peak calling with that fixed threshold
  over all chromosomes, in which no other quantile is computed.
\<close>

theorem scan_threshold_from_largest_chromosome:
  "sorted (rev (map file_size (chrom_paths data_dir))) \<and>
   set (chrom_paths data_dir) = set data_dir \<and>
   length (chrom_paths data_dir) = length data_dir \<and>
   scan nanquantile data_dir bandwidth stepsize var_threshold =
     (case chrom_paths data_dir of
        [] \<Rightarrow> Inr []
      | largest # others \<Rightarrow>
          (case scan_windows (bandwidth div 2) stepsize largest of
             Inl e \<Rightarrow> Inl e
           | Inr windows \<Rightarrow>
               scan_fixed (bandwidth div 2) stepsize
                 (nanquantile (snd windows) (fsub (Fin 1) var_threshold))
                 (largest # others)))"
proof (intro conjI)
  show "sorted (rev (map file_size (chrom_paths data_dir)))"
    unfolding chrom_paths_def by (rule sorted_neg_key) (rule sorted_sort_key)
  show "set (chrom_paths data_dir) = set data_dir" by (simp add: chrom_paths_def)
  show "length (chrom_paths data_dir) = length data_dir" by (simp add: chrom_paths_def)
  show "scan nanquantile data_dir bandwidth stepsize var_threshold =
     (case chrom_paths data_dir of
        [] \<Rightarrow> Inr []
      | largest # others \<Rightarrow>
          (case scan_windows (bandwidth div 2) stepsize largest of
             Inl e \<Rightarrow> Inl e
           | Inr windows \<Rightarrow>
               scan_fixed (bandwidth div 2) stepsize
                 (nanquantile (snd windows) (fsub (Fin 1) var_threshold))
                 (largest # others)))"
    by (simp add: scan_def scan_loop_Some Let_def split: list.splits sum.splits)
qed

text \<open>
  In the example the larger file has the single window variance 0, so the threshold is 0
  and the smaller file's window, of variance 9/64, is reported as a peak; scanned alone,
  the smaller file would set the threshold 9/64 and report nothing.
\<close>

theorem scan_threshold_from_largest_chromosome_witness:
  "chrom_paths [split_chrom, uniform_chrom] = [uniform_chrom, split_chrom] \<and>
   scan_windows (2 div 2) 1 uniform_chrom = Inr ([2], [Fin 0]) \<and>
   scan_windows (2 div 2) 1 split_chrom = Inr ([2], [Fin (9 / 64)]) \<and>
   max_variance [Fin 0] (fsub (Fin 1) (Fin 0)) = Fin 0 \<and>
   scan max_variance [split_chrom, uniform_chrom] 2 1 (Fin 0) = Inr [(''chrB'', 1, 2, Fin (1 / 9))] \<and>
   scan max_variance [split_chrom] 2 1 (Fin 0) = Inr []"
proof -
  have order: "chrom_paths [split_chrom, uniform_chrom] = [uniform_chrom, split_chrom]"
    by (simp add: chrom_paths_def split_chrom_def uniform_chrom_def)
  have single: "chrom_paths [split_chrom] = [split_chrom]"
    by (simp add: chrom_paths_def)
  have wa: "scan_windows (2 div 2) 1 uniform_chrom = Inr ([2], [Fin 0])"
    by code_simp
  have wb: "scan_windows (2 div 2) 1 split_chrom = Inr ([2], [Fin (9 / 64)])"
    by code_simp
  have ta: "max_variance [Fin 0] (fsub (Fin 1) (Fin 0)) = Fin 0"
    by (simp add: max_variance_def isnan_def)
  have tb: "max_variance [Fin (9 / 64)] (fsub (Fin 1) (Fin 0)) = Fin (9 / 64)"
    by (simp add: max_variance_def isnan_def)
  have fa: "scan_fixed (2 div 2) 1 (Fin 0) [uniform_chrom, split_chrom] =
      Inr [(''chrB'', 1, 2, Fin (1 / 9))]"
    by code_simp
  have fb: "scan_fixed (2 div 2) 1 (Fin (9 / 64)) [split_chrom] = Inr []"
    by code_simp
  have a: "scan max_variance [split_chrom, uniform_chrom] 2 1 (Fin 0) =
      Inr [(''chrB'', 1, 2, Fin (1 / 9))]"
    using scan_threshold_from_largest_chromosome
      [of "[split_chrom, uniform_chrom]" max_variance 2 1 "Fin 0"]
    unfolding order by (simp only: list.case wa sum.case snd_conv ta fa)
  have b: "scan max_variance [split_chrom] 2 1 (Fin 0) = Inr []"
    using scan_threshold_from_largest_chromosome [of "[split_chrom]" max_variance 2 1 "Fin 0"]
    unfolding single by (simp only: list.case wb sum.case snd_conv tb fb)
  from order wa wb ta a b show ?thesis by blast
qed

end
